theory Spec2Isabelle
  imports Main "HOL-Library.AList" "HOL-Library.Word"
begin

section \<open>Akumuli ingestion engine: registry entries, tree registry, ingestion sessions\<close>

text \<open>
  A shallow embedding of \<^verbatim>\<open>libakumuli/ingestion_engine/ingestion_engine.cpp\<close>.
  Member names are the source's without the trailing underscore (\<^verbatim>\<open>cache_\<close> is \<open>cache\<close>).
  Objects shared through \<^verbatim>\<open>std::shared_ptr\<close> live in an explicit store with their strong
  reference count; a \<^verbatim>\<open>std::weak_ptr\<close> is upgraded by looking the object up in the world.
  Undefined behaviour of the C++ (dereferencing \<^verbatim>\<open>end()\<close>, writing past a buffer) is an
  explicit \<open>fault\<close> result. Every member function runs under the mutexes the source takes,
  so it is modelled as one atomic state transformer.
\<close>

subsection \<open>Scalar types, status codes, samples\<close>

type_synonym aku_ParamId = nat
type_synonym aku_Timestamp = "64 word"
type_synonym f64 = "64 word"
type_synonym LogicAddr = "64 word"
type_synonym handle = nat
type_synonym session_key = nat

datatype aku_Status =
    AKU_SUCCESS | AKU_EBUSY | AKU_ENOT_FOUND | AKU_ETIMEOUT | AKU_ERETRY
  | AKU_ECLOSED | AKU_EBAD_ARG | AKU_ELATE_WRITE | AKU_EBAD_DATA

datatype NBTreeAppendResult = OK | OK_FLUSH_NEEDED | FAIL_LATE_WRITE | FAIL_BAD_ID

datatype aku_PayloadType = AKU_PAYLOAD_FLOAT | AKU_PAYLOAD_NONE

record aku_PData =
  ptype :: aku_PayloadType
  float64 :: f64

record aku_Sample =
  paramid :: aku_ParamId
  timestamp :: aku_Timestamp
  payload :: aku_PData

datatype cv_status = cv_timeout | cv_no_timeout

datatype fault = DerefEnd | NullDeref | BufferOverrun

subsection \<open>External collaborators\<close>

text \<open>
  \<^verbatim>\<open>NBTreeExtentsList\<close> and \<^verbatim>\<open>SeriesParser\<close> are not part of this unit: their operations are
  parameters, collected in one record. \<open>'t\<close> is the state of one extent list.
\<close>

record 't collaborators =
  extl_new :: "aku_ParamId \<Rightarrow> LogicAddr list \<Rightarrow> 't"
  extl_append :: "'t \<Rightarrow> aku_Timestamp \<Rightarrow> f64 \<Rightarrow> NBTreeAppendResult \<times> 't"
  extl_get_roots :: "'t \<Rightarrow> LogicAddr list"
  to_normal_form :: "string \<Rightarrow> aku_Status \<times> string"

text \<open>
  Modelled from the spec: \<^verbatim>\<open>SeriesMatcher\<close> (declared in a header that is not in this unit)
  is the spec's \<open>name_catalog\<close>: a bidirectional mapping between canonical names and ids,
  where \<open>0\<close> means "no match", \<open>add\<close> allocates a fresh nonzero id that is never reused
  (a counter that starts at 1), \<open>_add\<close> mirrors a known pair, and \<open>pull_new_names\<close>
  drains the names registered since the last pull.
\<close>

record SeriesMatcher =
  sm_table :: "string \<rightharpoonup> aku_ParamId"
  sm_inv_table :: "aku_ParamId \<rightharpoonup> string"
  sm_series_id :: aku_ParamId
  sm_names :: "(string \<times> aku_ParamId) list"

definition SeriesMatcher_new :: SeriesMatcher where
  "SeriesMatcher_new =
     \<lparr>sm_table = Map.empty, sm_inv_table = Map.empty, sm_series_id = 1, sm_names = []\<rparr>"

definition SeriesMatcher_match :: "SeriesMatcher \<Rightarrow> string \<Rightarrow> aku_ParamId" where
  "SeriesMatcher_match m name = (case sm_table m name of None \<Rightarrow> 0 | Some i \<Rightarrow> i)"

definition SeriesMatcher_add :: "SeriesMatcher \<Rightarrow> string \<Rightarrow> aku_ParamId \<times> SeriesMatcher" where
  "SeriesMatcher_add m name =
     (let i = sm_series_id m
      in (i, m\<lparr>sm_table := (sm_table m)(name \<mapsto> i),
               sm_inv_table := (sm_inv_table m)(i \<mapsto> name),
               sm_series_id := i + 1,
               sm_names := sm_names m @ [(name, i)]\<rparr>))"

definition SeriesMatcher_add_pair :: "SeriesMatcher \<Rightarrow> string \<Rightarrow> aku_ParamId \<Rightarrow> SeriesMatcher" where
  "SeriesMatcher_add_pair m name i =
     m\<lparr>sm_table := (sm_table m)(name \<mapsto> i), sm_inv_table := (sm_inv_table m)(i \<mapsto> name)\<rparr>"

definition SeriesMatcher_id2str :: "SeriesMatcher \<Rightarrow> aku_ParamId \<Rightarrow> string option" where
  "SeriesMatcher_id2str m i = sm_inv_table m i"

definition SeriesMatcher_pull_new_names ::
  "SeriesMatcher \<Rightarrow> (string \<times> aku_ParamId) list \<times> SeriesMatcher" where
  "SeriesMatcher_pull_new_names m = (sm_names m, m\<lparr>sm_names := []\<rparr>)"

subsection \<open>Objects and the world\<close>

text \<open>
  A \<^verbatim>\<open>RegistryEntry\<close> holds the \<^verbatim>\<open>shared_ptr\<close> \<open>roots\<close>; its mutex only makes
  \<open>try_acquire\<close> atomic. The registry's \<open>active\<close> map is kept as the list of its keys in
  iteration order; the weak pointer stored under a key is upgraded through \<open>sessions\<close>.
\<close>

record RegistryEntry =
  roots :: handle

record TreeRegistry =
  global_matcher :: SeriesMatcher
  table :: "aku_ParamId \<rightharpoonup> RegistryEntry"
  rescue_points :: "(aku_ParamId \<times> LogicAddr list) list"
  active :: "session_key list"

record IngestionSession =
  local_matcher :: SeriesMatcher
  cache :: "(aku_ParamId \<times> handle) list"

text \<open>
  The world: the store of \<^verbatim>\<open>NBTreeExtentsList\<close> objects (\<open>heap\<close>) with the strong count of
  the \<^verbatim>\<open>shared_ptr\<close>s that point to each (\<open>use_count\<close>), the registry (\<open>None\<close> once it has
  been torn down, so that \<^verbatim>\<open>registry_.lock()\<close> fails), the live sessions by address, and the
  handles held by callers that invoked \<^verbatim>\<open>TreeRegistry::try_acquire\<close> directly.
  The object that \<^verbatim>\<open>new NBTreeExtentsList(id, ...)\<close> builds is stored at address \<open>id\<close>.
\<close>

record 't world =
  heap :: "handle \<Rightarrow> 't"
  use_count :: "handle \<Rightarrow> nat"
  registry :: "TreeRegistry option"
  sessions :: "session_key \<rightharpoonup> IngestionSession"
  external :: "handle list"

definition TreeRegistry_new :: TreeRegistry where
  "TreeRegistry_new =
     \<lparr>global_matcher = SeriesMatcher_new, table = Map.empty, rescue_points = [], active = []\<rparr>"

definition IngestionSession_new :: IngestionSession where
  "IngestionSession_new = \<lparr>local_matcher = SeriesMatcher_new, cache = []\<rparr>"

definition init_world :: "'t collaborators \<Rightarrow> 't world" where
  "init_world X =
     \<lparr>heap = (\<lambda>_. extl_new X 0 []), use_count = (\<lambda>_. 0),
      registry = Some TreeRegistry_new, sessions = Map.empty, external = []\<rparr>"

subsection \<open>Registry entry\<close>

definition RegistryEntry_is_available :: "RegistryEntry \<Rightarrow> 't world \<Rightarrow> bool" where
  "RegistryEntry_is_available e w = (use_count w (roots e) = 1)"

text \<open>The returned tuple holds a copy of \<open>roots\<close>: on success the strong count goes up by one.\<close>

definition RegistryEntry_try_acquire ::
  "RegistryEntry \<Rightarrow> 't world \<Rightarrow> (aku_Status \<times> handle option) \<times> 't world" where
  "RegistryEntry_try_acquire e w =
     (if use_count w (roots e) = 1
      then ((AKU_SUCCESS, Some (roots e)),
            w\<lparr>use_count := (use_count w)(roots e := use_count w (roots e) + 1)\<rparr>)
      else ((AKU_EBUSY, None), w))"

subsection \<open>Tree registry\<close>

definition TreeRegistry_update_rescue_points ::
  "aku_ParamId \<Rightarrow> LogicAddr list \<Rightarrow> TreeRegistry \<Rightarrow> TreeRegistry" where
  "TreeRegistry_update_rescue_points i addrlist r =
     r\<lparr>rescue_points := AList.update i addrlist (rescue_points r)\<rparr>"

text \<open>
  Modelled from the spec: \<^verbatim>\<open>MetadataStorage\<close> is not part of this unit. Its two operations
  are the parameters \<open>ins\<close> (\<^verbatim>\<open>insert_new_names\<close>) and \<open>ups\<close> (\<^verbatim>\<open>upsert_rescue_points\<close>) on a
  store state \<open>'m\<close>; a failure (a C++ exception) is \<open>Inl\<close> and leaves the function at once.
  Following the spec, \<^verbatim>\<open>std::move(rescue_points_)\<close> empties the registry's buffer exactly
  when \<open>ups\<close> succeeds.
\<close>

definition TreeRegistry_sync_with_metadata_storage ::
  "((string \<times> aku_ParamId) list \<Rightarrow> 'm \<Rightarrow> 'e + 'm) \<Rightarrow>
   ((aku_ParamId \<times> LogicAddr list) list \<Rightarrow> 'm \<Rightarrow> 'e + 'm) \<Rightarrow>
   TreeRegistry \<Rightarrow> 'm \<Rightarrow> ('e + unit) \<times> TreeRegistry \<times> 'm" where
  "TreeRegistry_sync_with_metadata_storage ins ups r meta =
     (let (newnames, gm) = SeriesMatcher_pull_new_names (global_matcher r);
          r1 = r\<lparr>global_matcher := gm\<rparr>
      in case ins newnames meta of
           Inl e \<Rightarrow> (Inl e, r1, meta)
         | Inr meta1 \<Rightarrow>
             (case ups (rescue_points r1) meta1 of
                Inl e \<Rightarrow> (Inl e, r1, meta1)
              | Inr meta2 \<Rightarrow> (Inr (), r1\<lparr>rescue_points := []\<rparr>, meta2)))"

definition TreeRegistry_wait_for_sync_request :: "cv_status \<Rightarrow> TreeRegistry \<Rightarrow> aku_Status" where
  "TreeRegistry_wait_for_sync_request res r =
     (if res = cv_timeout then AKU_ETIMEOUT
      else if rescue_points r = [] then AKU_ERETRY else AKU_SUCCESS)"

text \<open>
  \<open>init_series_id\<close> returns the status, the id written to \<^verbatim>\<open>sample->paramid\<close>, the caller's
  local matcher, the registry and the world.
\<close>

definition TreeRegistry_init_series_id ::
  "'t collaborators \<Rightarrow> string \<Rightarrow> SeriesMatcher \<Rightarrow> TreeRegistry \<Rightarrow> 't world \<Rightarrow>
   aku_Status \<times> aku_ParamId \<times> SeriesMatcher \<times> TreeRegistry \<times> 't world" where
  "TreeRegistry_init_series_id X name lm r w =
     (let i0 = SeriesMatcher_match (global_matcher r) name
      in if i0 = 0
         then (let (i, gm) = SeriesMatcher_add (global_matcher r) name;
                   entry = \<lparr>roots = i\<rparr>;
                   w1 = w\<lparr>heap := (heap w)(i := extl_new X i []),
                          use_count := (use_count w)(i := 1)\<rparr>;
                   r1 = r\<lparr>global_matcher := gm,
                          table := (table r)(i \<mapsto> entry),
                          rescue_points := AList.update i [] (rescue_points r)\<rparr>
               in (AKU_SUCCESS, i, SeriesMatcher_add_pair lm name i, r1, w1))
         else (AKU_SUCCESS, i0, SeriesMatcher_add_pair lm name i0, r, w))"

text \<open>
  \<^verbatim>\<open>memcpy(dst, src, n)\<close> into a buffer of \<open>length dst\<close> bytes: writing past its end is a fault.
\<close>

definition memcpy :: "char list \<Rightarrow> char list \<Rightarrow> nat \<Rightarrow> fault + char list" where
  "memcpy dst src n =
     (if n \<le> length dst then Inr (take n src @ drop n dst) else Inl BufferOverrun)"

text \<open>
  \<open>buffer\<close> is the caller's memory, \<open>buffer_size\<close> the \<^verbatim>\<open>size_t\<close> passed with it;
  \<^verbatim>\<open>static_cast<int>(buffer_size)\<close> keeps the low 32 bits, read as signed. The result is
  the returned \<^verbatim>\<open>int\<close> with the buffer, or a fault.
\<close>

definition TreeRegistry_get_series_name ::
  "aku_ParamId \<Rightarrow> char list \<Rightarrow> 64 word \<Rightarrow> SeriesMatcher \<Rightarrow> TreeRegistry \<Rightarrow>
   (fault + int \<times> char list) \<times> SeriesMatcher" where
  "TreeRegistry_get_series_name i buffer buffer_size lm r =
     (case SeriesMatcher_id2str (global_matcher r) i of
        None \<Rightarrow> (Inr (0, buffer), lm)
      | Some str \<Rightarrow>
          (let lm1 = SeriesMatcher_add_pair lm str i
           in if int (length str) > sint (ucast buffer_size :: 32 word)
              then (Inr (- 1 * int (length str), buffer), lm1)
              else (case memcpy buffer str (length str) of
                      Inl f \<Rightarrow> (Inl f, lm1)
                    | Inr b \<Rightarrow> (Inr (int (length str), b), lm1))))"

definition TreeRegistry_create_session ::
  "session_key \<Rightarrow> TreeRegistry \<Rightarrow> 't world \<Rightarrow> TreeRegistry \<times> 't world" where
  "TreeRegistry_create_session k r w =
     (r\<lparr>active := (if k \<in> set (active r) then active r else active r @ [k])\<rparr>,
      w\<lparr>sessions := (sessions w)(k \<mapsto> IngestionSession_new)\<rparr>)"

definition TreeRegistry_remove_dispatcher :: "session_key \<Rightarrow> TreeRegistry \<Rightarrow> TreeRegistry" where
  "TreeRegistry_remove_dispatcher k r = r\<lparr>active := removeAll k (active r)\<rparr>"

definition TreeRegistry_try_acquire ::
  "aku_ParamId \<Rightarrow> TreeRegistry \<Rightarrow> 't world \<Rightarrow> (aku_Status \<times> handle option) \<times> 't world" where
  "TreeRegistry_try_acquire i r w =
     (case table r i of
        Some e \<Rightarrow> RegistryEntry_try_acquire e w
      | None \<Rightarrow> ((AKU_ENOT_FOUND, None), w))"

subsection \<open>Ingestion session\<close>

definition IngestionSession_receive_broadcast ::
  "'t collaborators \<Rightarrow> IngestionSession \<Rightarrow> aku_Sample \<Rightarrow> 't world \<Rightarrow>
   (bool \<times> NBTreeAppendResult) \<times> 't world" where
  "IngestionSession_receive_broadcast X s sample w =
     (case map_of (cache s) (paramid sample) of
        Some h \<Rightarrow>
          (let (result, t) = extl_append X (heap w h) (timestamp sample) (float64 (payload sample))
           in ((True, result), w\<lparr>heap := (heap w)(h := t)\<rparr>))
      | None \<Rightarrow> ((False, OK), w))"

text \<open>
  The loop of \<open>broadcast_sample\<close> over \<open>active\<close>: \<open>sessions w k\<close> is
  \<^verbatim>\<open>wdisp.second.lock()\<close>, \<open>k \<noteq> source\<close> is \<^verbatim>\<open>disp.get() != source\<close>.
\<close>

fun broadcast_loop ::
  "'t collaborators \<Rightarrow> session_key list \<Rightarrow> aku_Sample \<Rightarrow> session_key \<Rightarrow> 't world \<Rightarrow>
   NBTreeAppendResult \<times> 't world" where
  "broadcast_loop X [] sample source w = (FAIL_BAD_ID, w)"
| "broadcast_loop X (k # ks) sample source w =
     (case sessions w k of
        Some disp \<Rightarrow>
          (if k \<noteq> source
           then (case IngestionSession_receive_broadcast X disp sample w of
                   ((stop, result), w1) \<Rightarrow>
                     if stop then (result, w1) else broadcast_loop X ks sample source w1)
           else broadcast_loop X ks sample source w)
      | None \<Rightarrow> broadcast_loop X ks sample source w)"

definition TreeRegistry_broadcast_sample ::
  "'t collaborators \<Rightarrow> TreeRegistry \<Rightarrow> aku_Sample \<Rightarrow> session_key \<Rightarrow> 't world \<Rightarrow>
   NBTreeAppendResult \<times> 't world" where
  "TreeRegistry_broadcast_sample X r sample source w = broadcast_loop X (active r) sample source w"

definition IngestionSession_close :: "session_key \<Rightarrow> 't world \<Rightarrow> 't world" where
  "IngestionSession_close self w =
     (case registry w of
        Some reg \<Rightarrow> w\<lparr>registry := Some (TreeRegistry_remove_dispatcher self reg)\<rparr>
      | None \<Rightarrow> w)"

definition IngestionSession_init_series_id ::
  "'t collaborators \<Rightarrow> IngestionSession \<Rightarrow> string \<Rightarrow> 't world \<Rightarrow>
   aku_Status \<times> aku_ParamId option \<times> IngestionSession \<times> 't world" where
  "IngestionSession_init_series_id X s raw w =
     (case to_normal_form X raw of
        (status, name) \<Rightarrow>
          if status \<noteq> AKU_SUCCESS then (status, None, s, w)
          else (let i = SeriesMatcher_match (local_matcher s) name
                in if i = 0
                   then (case registry w of
                           Some reg \<Rightarrow>
                             (case TreeRegistry_init_series_id X name (local_matcher s) reg w of
                                (st, i1, lm, reg1, w1) \<Rightarrow>
                                  (st, Some i1, s\<lparr>local_matcher := lm\<rparr>,
                                   w1\<lparr>registry := Some reg1\<rparr>))
                         | None \<Rightarrow> (AKU_ECLOSED, None, s, w))
                   else (status, Some i, s, w)))"

definition IngestionSession_get_series_name ::
  "IngestionSession \<Rightarrow> aku_ParamId \<Rightarrow> char list \<Rightarrow> 64 word \<Rightarrow> 't world \<Rightarrow>
   (fault + int \<times> char list) \<times> IngestionSession" where
  "IngestionSession_get_series_name s i buffer buffer_size w =
     (case SeriesMatcher_id2str (local_matcher s) i of
        None \<Rightarrow>
          (case registry w of
             Some reg \<Rightarrow>
               (case TreeRegistry_get_series_name i buffer buffer_size (local_matcher s) reg of
                  (res, lm) \<Rightarrow> (res, s\<lparr>local_matcher := lm\<rparr>))
           | None \<Rightarrow> (Inr (0, buffer), s))
      | Some name \<Rightarrow>
          (case memcpy buffer name (length name) of
             Inl f \<Rightarrow> (Inl f, s)
           | Inr b \<Rightarrow> (Inr (int (length name), b), s)))"

text \<open>
  The first half of \<open>write\<close>: locate or acquire the extent list and append. \<open>it\<close> is the
  result of \<^verbatim>\<open>cache_.find(id)\<close>, taken before anything is inserted. The result is the status,
  the append result, the session and the world; a null \<open>entry\<close> cannot be appended to.
  The strong reference that \<open>try_acquire\<close> returns ends up in \<open>cache\<close> (the source copies
  \<open>entry\<close> into the map and then drops \<open>entry\<close>), so storing it leaves the count alone.
\<close>

definition write_append ::
  "'t collaborators \<Rightarrow> session_key \<Rightarrow> IngestionSession \<Rightarrow> aku_Sample \<Rightarrow> handle option \<Rightarrow>
   't world \<Rightarrow> fault + aku_Status \<times> NBTreeAppendResult \<times> IngestionSession \<times> 't world" where
  "write_append X self s sample it w =
     (let i = paramid sample
      in case it of
           None \<Rightarrow>
             (case registry w of
                Some reg \<Rightarrow>
                  (case TreeRegistry_try_acquire i reg w of
                     ((status, entry), w1) \<Rightarrow>
                       if status = AKU_SUCCESS
                       then (case entry of
                               Some h \<Rightarrow>
                                 (let s1 = s\<lparr>cache := AList.update i h (cache s)\<rparr>;
                                      (result, t) = extl_append X (heap w1 h) (timestamp sample)
                                                      (float64 (payload sample))
                                  in Inr (status, result, s1, w1\<lparr>heap := (heap w1)(h := t)\<rparr>))
                             | None \<Rightarrow> Inl NullDeref)
                       else if status = AKU_EBUSY
                       then (case TreeRegistry_broadcast_sample X reg sample self w1 of
                               (result, w2) \<Rightarrow> Inr (AKU_SUCCESS, result, s, w2))
                       else Inr (status, OK, s, w1))
              | None \<Rightarrow> Inr (AKU_ECLOSED, OK, s, w))
         | Some h \<Rightarrow>
             (let (result, t) = extl_append X (heap w h) (timestamp sample)
                                  (float64 (payload sample))
              in Inr (AKU_SUCCESS, result, s, w\<lparr>heap := (heap w)(h := t)\<rparr>)))"

text \<open>
  \<open>write\<close> returns the status or the fault, with the session and the world as they are
  at that point. In the \<open>OK_FLUSH_NEEDED\<close> case the source dereferences \<open>it\<close>.
\<close>

definition IngestionSession_write ::
  "'t collaborators \<Rightarrow> session_key \<Rightarrow> IngestionSession \<Rightarrow> aku_Sample \<Rightarrow> 't world \<Rightarrow>
   (fault + aku_Status) \<times> IngestionSession \<times> 't world" where
  "IngestionSession_write X self s sample w =
     (if ptype (payload sample) \<noteq> AKU_PAYLOAD_FLOAT then (Inr AKU_EBAD_ARG, s, w)
      else (let i = paramid sample; it = map_of (cache s) i
            in case write_append X self s sample it w of
                 Inl f \<Rightarrow> (Inl f, s, w)
               | Inr (status, append_result, s1, w1) \<Rightarrow>
                   if status = AKU_SUCCESS
                   then (case append_result of
                           OK \<Rightarrow> (Inr status, s1, w1)
                         | OK_FLUSH_NEEDED \<Rightarrow>
                             (case it of
                                None \<Rightarrow> (Inl DerefEnd, s1, w1)
                              | Some h \<Rightarrow>
                                  (let rescue = extl_get_roots X (heap w1 h)
                                   in case registry w1 of
                                        Some reg \<Rightarrow>
                                          (Inr status, s1,
                                           w1\<lparr>registry :=
                                                Some (TreeRegistry_update_rescue_points i rescue reg)\<rparr>)
                                      | None \<Rightarrow> (Inr AKU_ECLOSED, s1, w1)))
                         | FAIL_LATE_WRITE \<Rightarrow> (Inr AKU_ELATE_WRITE, s1, w1)
                         | FAIL_BAD_ID \<Rightarrow> (Inr AKU_ENOT_FOUND, s1, w1))
                   else (Inr status, s1, w1)))"

subsection \<open>Lifetimes and runs\<close>

text \<open>
  Dropping a \<^verbatim>\<open>shared_ptr\<close> lowers the strong count. The implicit destructor of a session
  drops every handle in its \<open>cache\<close>; the deleter installed by \<open>create_session\<close> calls
  \<open>close\<close> and then deletes the session.
\<close>

definition release :: "handle \<Rightarrow> 't world \<Rightarrow> 't world" where
  "release h w = w\<lparr>use_count := (use_count w)(h := use_count w h - 1)\<rparr>"

definition IngestionSession_destroy :: "IngestionSession \<Rightarrow> 't world \<Rightarrow> 't world" where
  "IngestionSession_destroy s w = fold (\<lambda>(i, h). release h) (cache s) w"

definition session_deleter :: "session_key \<Rightarrow> IngestionSession \<Rightarrow> 't world \<Rightarrow> 't world" where
  "session_deleter k s w =
     (let w1 = IngestionSession_close k w;
          w2 = IngestionSession_destroy s w1
      in w2\<lparr>sessions := (sessions w2)(k := None)\<rparr>)"

text \<open>
  The calls a client can make. A call on a session that does not exist does nothing, and
  \<open>create_session\<close> needs an address that no live session has. \<open>TryAcquire\<close> is a direct
  call of \<^verbatim>\<open>TreeRegistry::try_acquire\<close> whose caller keeps the handle until \<open>DropHandle\<close>.
  \<open>DeleteSession\<close> is the deleter that \<open>create_session\<close> installs. A \<open>write\<close> that ends
  in a fault leaves the session and the world as they were when it stopped.
\<close>

datatype op =
    CreateSession session_key
  | Close session_key
  | DeleteSession session_key
  | InitSeriesId session_key string
  | Write session_key aku_Sample
  | ReceiveBroadcast session_key aku_Sample
  | TryAcquire aku_ParamId
  | DropHandle handle

fun exec :: "'t collaborators \<Rightarrow> op \<Rightarrow> 't world \<Rightarrow> 't world" where
  "exec X (CreateSession k) w =
     (case registry w of
        Some reg \<Rightarrow>
          (if sessions w k = None
           then (case TreeRegistry_create_session k reg w of
                   (reg1, w1) \<Rightarrow> w1\<lparr>registry := Some reg1\<rparr>)
           else w)
      | None \<Rightarrow> w)"
| "exec X (Close k) w =
     (case sessions w k of Some s \<Rightarrow> IngestionSession_close k w | None \<Rightarrow> w)"
| "exec X (DeleteSession k) w =
     (case sessions w k of Some s \<Rightarrow> session_deleter k s w | None \<Rightarrow> w)"
| "exec X (InitSeriesId k raw) w =
     (case sessions w k of
        Some s \<Rightarrow>
          (case IngestionSession_init_series_id X s raw w of
             (st, i, s1, w1) \<Rightarrow> w1\<lparr>sessions := (sessions w1)(k \<mapsto> s1)\<rparr>)
      | None \<Rightarrow> w)"
| "exec X (Write k sample) w =
     (case sessions w k of
        Some s \<Rightarrow>
          (case IngestionSession_write X k s sample w of
             (res, s1, w1) \<Rightarrow> w1\<lparr>sessions := (sessions w1)(k \<mapsto> s1)\<rparr>)
      | None \<Rightarrow> w)"
| "exec X (ReceiveBroadcast k sample) w =
     (case sessions w k of
        Some s \<Rightarrow> snd (IngestionSession_receive_broadcast X s sample w)
      | None \<Rightarrow> w)"
| "exec X (TryAcquire i) w =
     (case registry w of
        Some reg \<Rightarrow>
          (case TreeRegistry_try_acquire i reg w of
             ((st, Some h), w1) \<Rightarrow> w1\<lparr>external := h # external w1\<rparr>
           | ((st, None), w1) \<Rightarrow> w1)
      | None \<Rightarrow> w)"
| "exec X (DropHandle h) w =
     (if h \<in> set (external w)
      then release h (w\<lparr>external := remove1 h (external w)\<rparr>)
      else w)"

definition run :: "'t collaborators \<Rightarrow> op list \<Rightarrow> 't world" where
  "run X ops = fold (exec X) ops (init_world X)"

subsection \<open>A test double for the collaborators\<close>

text \<open>
  An extent list that records its samples, rejects timestamps below 10 as late, asks for a
  flush from timestamp 100 on, and always reports the roots \<open>[0xAA, 0xBB]\<close>; names are
  already in normal form.
\<close>

definition double_append ::
  "(aku_Timestamp \<times> f64) list \<Rightarrow> aku_Timestamp \<Rightarrow> f64 \<Rightarrow>
   NBTreeAppendResult \<times> (aku_Timestamp \<times> f64) list" where
  "double_append t ts v =
     (if ts < 10 then (FAIL_LATE_WRITE, t)
      else if ts < 100 then (OK, t @ [(ts, v)])
      else (OK_FLUSH_NEEDED, t @ [(ts, v)]))"

definition double :: "(aku_Timestamp \<times> f64) list collaborators" where
  "double =
     \<lparr>extl_new = (\<lambda>i addrs. []), extl_append = double_append,
      extl_get_roots = (\<lambda>t. [0xAA, 0xBB]),
      to_normal_form = (\<lambda>raw. (AKU_SUCCESS, raw))\<rparr>"

definition float_sample :: "aku_ParamId \<Rightarrow> aku_Timestamp \<Rightarrow> f64 \<Rightarrow> aku_Sample" where
  "float_sample i ts v =
     \<lparr>paramid = i, timestamp = ts, payload = \<lparr>ptype = AKU_PAYLOAD_FLOAT, float64 = v\<rparr>\<rparr>"

text \<open>
  Modelled from the spec: \<^verbatim>\<open>MetadataStorage\<close> (not part of this unit) is the durable catalog
  of names and rescue points: \<open>insert_new_names\<close> adds the batch of names,
  \<open>upsert_rescue_points\<close> stores the address list of every id it is handed, replacing an
  older one.
\<close>

record MetadataStorage =
  stored_names :: "(string \<times> aku_ParamId) list"
  stored_rescue_points :: "aku_ParamId \<rightharpoonup> LogicAddr list"

definition MetadataStorage_new :: MetadataStorage where
  "MetadataStorage_new = \<lparr>stored_names = [], stored_rescue_points = Map.empty\<rparr>"

definition MetadataStorage_insert_new_names ::
  "(string \<times> aku_ParamId) list \<Rightarrow> MetadataStorage \<Rightarrow> 'e + MetadataStorage" where
  "MetadataStorage_insert_new_names ns m = Inr (m\<lparr>stored_names := stored_names m @ ns\<rparr>)"

definition MetadataStorage_upsert_rescue_points ::
  "(aku_ParamId \<times> LogicAddr list) list \<Rightarrow> MetadataStorage \<Rightarrow> 'e + MetadataStorage" where
  "MetadataStorage_upsert_rescue_points rp m =
     Inr (m\<lparr>stored_rescue_points := stored_rescue_points m ++ map_of rp\<rparr>)"

subsection \<open>Concrete worlds\<close>

text \<open>
  A world whose registry has been torn down while session 1 still owns the extent list of
  series 1.
\<close>

definition orphan_world :: "(aku_Timestamp \<times> f64) list world" where
  "orphan_world =
     \<lparr>heap = (\<lambda>_. []), use_count = (\<lambda>h. if h = 1 then 1 else 0),
      registry = None,
      sessions = [1 \<mapsto> \<lparr>local_matcher = SeriesMatcher_new, cache = [(1, 1)]\<rparr>],
      external = []\<rparr>"

text \<open>What a client that calls a member function of the session at address \<open>k\<close> gets back.\<close>

definition call_write ::
  "'t collaborators \<Rightarrow> session_key \<Rightarrow> aku_Sample \<Rightarrow> 't world \<Rightarrow> (fault + aku_Status) option" where
  "call_write X k sample w =
     map_option (\<lambda>s. fst (IngestionSession_write X k s sample w)) (sessions w k)"

definition call_get_series_name ::
  "session_key \<Rightarrow> aku_ParamId \<Rightarrow> char list \<Rightarrow> 64 word \<Rightarrow> 't world \<Rightarrow>
   (fault + int \<times> char list) option" where
  "call_get_series_name k i buffer buffer_size w =
     map_option (\<lambda>s. fst (IngestionSession_get_series_name s i buffer buffer_size w))
       (sessions w k)"

definition owns :: "'t world \<Rightarrow> session_key \<Rightarrow> aku_ParamId \<Rightarrow> bool" where
  "owns w k i = (case sessions w k of Some s \<Rightarrow> map_of (cache s) i \<noteq> None | None \<Rightarrow> False)"

text \<open>Session 1 has registered series 1 and does not own it yet.\<close>

definition fresh_series_world :: "(aku_Timestamp \<times> f64) list world" where
  "fresh_series_world = run double [CreateSession 1, InitSeriesId 1 ''cpu host=a'']"

text \<open>Sessions 1 and 2 know series 1; session 1 has written to it and owns it.\<close>

definition owned_world :: "(aku_Timestamp \<times> f64) list world" where
  "owned_world =
     run double [CreateSession 1, CreateSession 2, InitSeriesId 1 ''m x=1'',
                 InitSeriesId 2 ''m x=1'', Write 1 (float_sample 1 50 7)]"

text \<open>As before, and then \<open>close\<close> has been called on session 1, which is still alive.\<close>

definition closed_owner_world :: "(aku_Timestamp \<times> f64) list world" where
  "closed_owner_world =
     run double [CreateSession 1, CreateSession 2, InitSeriesId 1 ''m x=1'',
                 InitSeriesId 2 ''m x=1'', Write 1 (float_sample 1 50 7), Close 1]"

text \<open>Session 1 has registered the name \<open>abc\<close>, three bytes long; session 2 has not seen it.\<close>

definition abc_world :: "(aku_Timestamp \<times> f64) list world" where
  "abc_world = run double [CreateSession 1, CreateSession 2, InitSeriesId 1 ''abc'']"

subsection \<open>Invariants of reachable worlds\<close>

text \<open>
  The caches of the live sessions; which session has an id in its \<open>cache\<close>; and the
  ownership invariant: every registry entry points to the extent list stored under its own
  id, ids are below the catalog's counter, a cached handle is the handle of the registry's
  entry, no id is cached by two sessions or held both by a session and by an outside caller,
  and the strong count of an entry's extent list is 1 for the registry plus 1 for its
  holder, if there is one.
\<close>

definition caches_of ::
  "(session_key \<rightharpoonup> IngestionSession) \<Rightarrow> session_key \<rightharpoonup> (aku_ParamId \<times> handle) list" where
  "caches_of ss = (\<lambda>k. map_option cache (ss k))"

definition holds :: "(session_key \<rightharpoonup> (aku_ParamId \<times> handle) list) \<Rightarrow> session_key \<Rightarrow> aku_ParamId \<Rightarrow> bool" where
  "holds cm k i \<longleftrightarrow> (case cm k of Some c \<Rightarrow> map_of c i \<noteq> None | None \<Rightarrow> False)"

definition holder :: "(session_key \<rightharpoonup> (aku_ParamId \<times> handle) list) \<Rightarrow> aku_ParamId \<Rightarrow> bool" where
  "holder cm i \<longleftrightarrow> (\<exists>k. holds cm k i)"

definition handles_ok ::
  "(aku_ParamId \<rightharpoonup> RegistryEntry) \<Rightarrow> (session_key \<rightharpoonup> (aku_ParamId \<times> handle) list) \<Rightarrow> handle list \<Rightarrow> bool" where
  "handles_ok tb cm ext \<longleftrightarrow>
     (\<forall>k c i h. cm k = Some c \<longrightarrow> map_of c i = Some h \<longrightarrow> h = i \<and> tb i \<noteq> None \<and> i \<notin> set ext)"

definition own_inv ::
  "(aku_ParamId \<rightharpoonup> RegistryEntry) \<Rightarrow> nat \<Rightarrow> (session_key \<rightharpoonup> (aku_ParamId \<times> handle) list) \<Rightarrow>
   handle list \<Rightarrow> (handle \<Rightarrow> nat) \<Rightarrow> bool" where
  "own_inv tb nx cm ext uc \<longleftrightarrow>
     (\<forall>i e. tb i = Some e \<longrightarrow> roots e = i \<and> i < nx) \<and>
     handles_ok tb cm ext \<and>
     (\<forall>k c. cm k = Some c \<longrightarrow> distinct (map fst c)) \<and>
     (\<forall>k1 k2 i. holds cm k1 i \<longrightarrow> holds cm k2 i \<longrightarrow> k1 = k2) \<and>
     distinct ext \<and> (\<forall>h\<in>set ext. tb h \<noteq> None) \<and>
     (\<forall>i. tb i \<noteq> None \<longrightarrow> uc i = (if holder cm i \<or> i \<in> set ext then 2 else 1))"

definition own_ok :: "'t world \<Rightarrow> bool" where
  "own_ok w \<longleftrightarrow>
     (case registry w of
        Some r \<Rightarrow> own_inv (table r) (sm_series_id (global_matcher r)) (caches_of (sessions w))
                    (external w) (use_count w)
      | None \<Rightarrow> False)"

text \<open>
  The name catalog: ids are positive and below the counter, and the two tables are
  inverse to each other; every session's local matcher is contained in the global one; a
  step keeps this and only extends the global catalog.
\<close>

definition catalog_ok :: "SeriesMatcher \<Rightarrow> bool" where
  "catalog_ok m \<longleftrightarrow>
     0 < sm_series_id m \<and>
     (\<forall>n i. sm_table m n = Some i \<longrightarrow> 0 < i \<and> i < sm_series_id m \<and> sm_inv_table m i = Some n) \<and>
     (\<forall>i n. sm_inv_table m i = Some n \<longrightarrow> sm_table m n = Some i)"

definition sub_matcher :: "SeriesMatcher \<Rightarrow> SeriesMatcher \<Rightarrow> bool" where
  "sub_matcher a b \<longleftrightarrow>
     (\<forall>n i. sm_table a n = Some i \<longrightarrow> sm_table b n = Some i) \<and>
     (\<forall>i n. sm_inv_table a i = Some n \<longrightarrow> sm_inv_table b i = Some n)"

definition locals_of :: "(session_key \<rightharpoonup> IngestionSession) \<Rightarrow> session_key \<rightharpoonup> SeriesMatcher" where
  "locals_of ss = (\<lambda>k. map_option local_matcher (ss k))"

definition names_inv :: "SeriesMatcher \<Rightarrow> (session_key \<rightharpoonup> SeriesMatcher) \<Rightarrow> bool" where
  "names_inv gm lms \<longleftrightarrow> catalog_ok gm \<and> (\<forall>k lm. lms k = Some lm \<longrightarrow> sub_matcher lm gm)"

definition names_ok :: "'t world \<Rightarrow> bool" where
  "names_ok w \<longleftrightarrow>
     (case registry w of
        Some r \<Rightarrow> names_inv (global_matcher r) (locals_of (sessions w))
      | None \<Rightarrow> False)"

definition names_step :: "'t world \<Rightarrow> 't world \<Rightarrow> bool" where
  "names_step w w' \<longleftrightarrow>
     names_ok w' \<and>
     (\<forall>r. registry w = Some r \<longrightarrow>
        (\<exists>r'. registry w' = Some r' \<and> sub_matcher (global_matcher r) (global_matcher r')))"

text \<open>
  The name \<open>cpu\<close> is registered through the registry; then session 2 is created and
  asks for \<open>mem\<close> and \<open>cpu\<close>.
\<close>

definition cpu_registered :: "(aku_Timestamp \<times> f64) list world" where
  "cpu_registered =
     (case TreeRegistry_init_series_id double ''cpu'' SeriesMatcher_new TreeRegistry_new
             (run double []) of
        (st, i, lm1, r1, w1) \<Rightarrow> w1\<lparr>registry := Some r1\<rparr>)"

definition two_names_world :: "(aku_Timestamp \<times> f64) list world" where
  "two_names_world =
     fold (exec double) [CreateSession 2, InitSeriesId 2 ''mem'', InitSeriesId 2 ''cpu'']
       cpu_registered"

text \<open>
  The rescue-point buffer holds the list \<open>v\<close> for a registered id; and the operations that
  can hand new roots for the id \<open>i\<close> to the registry: a \<open>write\<close> of a sample for \<open>i\<close>.
\<close>

definition buffered_as :: "'t world \<Rightarrow> aku_ParamId \<Rightarrow> LogicAddr list \<Rightarrow> bool" where
  "buffered_as w i v \<longleftrightarrow>
     (case registry w of
        Some r \<Rightarrow> i < sm_series_id (global_matcher r) \<and> map_of (rescue_points r) i = Some v
      | None \<Rightarrow> False)"

definition writes_to :: "aku_ParamId \<Rightarrow> op \<Rightarrow> bool" where
  "writes_to i x = (case x of Write k sample \<Rightarrow> paramid sample = i | _ \<Rightarrow> False)"

text \<open>
  Session 1 registers series 1 and writes to it twice; the second append asks for a flush.
\<close>

definition flushed_world :: "(aku_Timestamp \<times> f64) list world" where
  "flushed_world =
     run double [CreateSession 1, InitSeriesId 1 ''cpu host=a'',
                 Write 1 (float_sample 1 50 7), Write 1 (float_sample 1 100 7)]"

text \<open>
  After \<open>cpu\<close> has been registered, session 2 registers \<open>mem\<close> and writes to it twice; the
  second append asks for a flush.
\<close>

definition flushed_other_world :: "(aku_Timestamp \<times> f64) list world" where
  "flushed_other_world =
     fold (exec double)
       [CreateSession 2, InitSeriesId 2 ''mem'', Write 2 (float_sample 2 50 7),
        Write 2 (float_sample 2 100 7)]
       cpu_registered"

lemmas model_defs =
  run_def init_world_def double_def float_sample_def double_append_def
  TreeRegistry_new_def IngestionSession_new_def SeriesMatcher_new_def
  TreeRegistry_create_session_def TreeRegistry_remove_dispatcher_def
  IngestionSession_init_series_id_def TreeRegistry_init_series_id_def
  IngestionSession_close_def session_deleter_def IngestionSession_destroy_def release_def
  SeriesMatcher_match_def SeriesMatcher_add_def SeriesMatcher_add_pair_def
  SeriesMatcher_id2str_def SeriesMatcher_pull_new_names_def
  IngestionSession_write_def write_append_def TreeRegistry_try_acquire_def
  RegistryEntry_try_acquire_def TreeRegistry_broadcast_sample_def
  IngestionSession_receive_broadcast_def TreeRegistry_update_rescue_points_def
  IngestionSession_get_series_name_def TreeRegistry_get_series_name_def memcpy_def
  TreeRegistry_wait_for_sync_request_def TreeRegistry_sync_with_metadata_storage_def
  MetadataStorage_insert_new_names_def MetadataStorage_upsert_rescue_points_def
  MetadataStorage_new_def call_write_def call_get_series_name_def owns_def
  fresh_series_world_def owned_world_def closed_owner_world_def abc_world_def orphan_world_def

section \<open>Properties\<close>

subsection \<open>Writing to an owned series after the registry is gone\<close>

text \<open>
  C9. When the sample's id is in the session's \<open>cache\<close>, the append answers
  \<open>OK_FLUSH_NEEDED\<close> and the registry has been torn down, \<open>write\<close> returns
  \<open>AKU_ECLOSED\<close>; the sample stays appended to the extent list (the world differs from
  the one before exactly by that append) and the roots are handed to nobody.
\<close>

theorem write_owned_flush_registry_gone:
  assumes "ptype (payload sample) = AKU_PAYLOAD_FLOAT"
    and "map_of (cache s) (paramid sample) = Some h"
    and "extl_append X (heap w h) (timestamp sample) (float64 (payload sample)) =
           (OK_FLUSH_NEEDED, t)"
    and "registry w = None"
  shows "IngestionSession_write X self s sample w =
           (Inr AKU_ECLOSED, s, w\<lparr>heap := (heap w)(h := t)\<rparr>)"
  using assms by (simp add: IngestionSession_write_def write_append_def)

theorem write_owned_flush_registry_gone_witness:
  "IngestionSession_write double 1 \<lparr>local_matcher = SeriesMatcher_new, cache = [(1, 1)]\<rparr>
     (float_sample 1 100 7) orphan_world =
   (Inr AKU_ECLOSED, \<lparr>local_matcher = SeriesMatcher_new, cache = [(1, 1)]\<rparr>,
    orphan_world\<lparr>heap := (heap orphan_world)(1 := [(100, 7)])\<rparr>)"
  by (rule write_owned_flush_registry_gone)
     (simp_all add: orphan_world_def double_def double_append_def float_sample_def)

subsection \<open>Broadcast that nobody handles\<close>

lemma broadcast_loop_unhandled:
  assumes "\<forall>k\<in>set ks. k \<noteq> source \<longrightarrow>
             (case sessions w k of None \<Rightarrow> True
              | Some s \<Rightarrow> map_of (cache s) (paramid sample) = None)"
  shows "broadcast_loop X ks sample source w = (FAIL_BAD_ID, w)"
  using assms
  by (induction ks) (auto simp: IngestionSession_receive_broadcast_def split: option.splits)

text \<open>
  C7. A \<open>write\<close> that misses the session's \<open>cache\<close> and whose \<open>try_acquire\<close> answers
  \<open>AKU_EBUSY\<close>: when no session that the registry can reach (a key of \<open>active\<close> whose
  weak pointer still upgrades), other than the writer, has the sample's id in its
  \<open>cache\<close>, then \<open>broadcast_sample\<close> returns \<open>FAIL_BAD_ID\<close> and \<open>write\<close> returns
  \<open>AKU_ENOT_FOUND\<close>, leaving session and world as they were. This covers the case that
  no live session at all, other than the writer, owns the id.
\<close>

theorem write_busy_without_owner:
  assumes "ptype (payload sample) = AKU_PAYLOAD_FLOAT"
    and "map_of (cache s) (paramid sample) = None"
    and "registry w = Some reg"
    and "fst (fst (TreeRegistry_try_acquire (paramid sample) reg w)) = AKU_EBUSY"
    and "\<forall>k\<in>set (active reg). k \<noteq> self \<longrightarrow>
           (case sessions w k of None \<Rightarrow> True
            | Some s' \<Rightarrow> map_of (cache s') (paramid sample) = None)"
  shows "TreeRegistry_broadcast_sample X reg sample self w = (FAIL_BAD_ID, w) \<and>
         IngestionSession_write X self s sample w = (Inr AKU_ENOT_FOUND, s, w)"
proof -
  have b: "TreeRegistry_broadcast_sample X reg sample self w = (FAIL_BAD_ID, w)"
    unfolding TreeRegistry_broadcast_sample_def using assms(5) by (rule broadcast_loop_unhandled)
  have t: "TreeRegistry_try_acquire (paramid sample) reg w = ((AKU_EBUSY, None), w)"
    using assms(4)
    by (auto simp: TreeRegistry_try_acquire_def RegistryEntry_try_acquire_def
             split: option.splits if_splits)
  show ?thesis
    using assms(1-3) b t by (simp add: IngestionSession_write_def write_append_def)
qed

theorem write_busy_without_owner_witness:
  "TreeRegistry_try_acquire 1 (the (registry closed_owner_world)) closed_owner_world =
     ((AKU_EBUSY, None), closed_owner_world) \<and>
   sessions closed_owner_world 2 =
     Some \<lparr>local_matcher = SeriesMatcher_add_pair SeriesMatcher_new ''m x=1'' 1, cache = []\<rparr> \<and>
   IngestionSession_write double 2
     \<lparr>local_matcher = SeriesMatcher_add_pair SeriesMatcher_new ''m x=1'' 1, cache = []\<rparr>
     (float_sample 1 60 8) closed_owner_world =
     (Inr AKU_ENOT_FOUND,
      \<lparr>local_matcher = SeriesMatcher_add_pair SeriesMatcher_new ''m x=1'' 1, cache = []\<rparr>,
      closed_owner_world)"
proof -
  let ?s = "\<lparr>local_matcher = SeriesMatcher_add_pair SeriesMatcher_new ''m x=1'' 1, cache = []\<rparr>"
  obtain reg where r: "registry closed_owner_world = Some reg"
    by (simp add: model_defs)
  have a: "active reg = [2]" and t: "table reg 1 = Some \<lparr>roots = 1\<rparr>"
    using r by (auto simp: model_defs)
  have u: "use_count closed_owner_world 1 = 2"
    by (simp add: model_defs)
  have b: "fst (fst (TreeRegistry_try_acquire 1 reg closed_owner_world)) = AKU_EBUSY"
    using t u by (simp add: TreeRegistry_try_acquire_def RegistryEntry_try_acquire_def)
  have "IngestionSession_write double 2 ?s (float_sample 1 60 8) closed_owner_world =
          (Inr AKU_ENOT_FOUND, ?s, closed_owner_world)"
    using write_busy_without_owner
            [of "float_sample 1 60 8" ?s closed_owner_world reg 2 double] r a b
    by (simp add: float_sample_def)
  moreover have "sessions closed_owner_world 2 = Some ?s"
    by (simp add: model_defs)
  moreover have "TreeRegistry_try_acquire 1 (the (registry closed_owner_world))
                   closed_owner_world = ((AKU_EBUSY, None), closed_owner_world)"
    using r t u by (simp add: TreeRegistry_try_acquire_def RegistryEntry_try_acquire_def)
  ultimately show ?thesis by simp
qed

subsection \<open>The flush branch of write\<close>

text \<open>
  C1. The claim says that wherever the append answers \<open>OK_FLUSH_NEEDED\<close>, \<open>write\<close> finds
  the owning handle, reads its roots and returns OK. The source reads the roots through the
  iterator \<open>it\<close> that it took before acquiring: on the two paths where the id was not in
  \<open>cache\<close> (a fresh \<open>try_acquire\<close>, and the broadcast to the owner) \<open>it\<close> is
  \<^verbatim>\<open>cache_.end()\<close>. Session 1 writes timestamp 100 to the series it has just registered;
  session 2 writes it to the series that session 1 owns: both calls dereference \<open>end()\<close>.
\<close>

theorem write_flush_needed_derefs_end:
  "call_write double 1 (float_sample 1 100 7) fresh_series_world = Some (Inl DerefEnd) \<and>
   call_write double 2 (float_sample 1 100 7) owned_world = Some (Inl DerefEnd)"
  by (simp add: model_defs)

text \<open>On the path where the id is in \<open>cache\<close> the claim holds.\<close>

lemma write_owned_flush_updates_rescue_points:
  assumes "ptype (payload sample) = AKU_PAYLOAD_FLOAT"
    and "map_of (cache s) (paramid sample) = Some h"
    and "extl_append X (heap w h) (timestamp sample) (float64 (payload sample)) =
           (OK_FLUSH_NEEDED, t)"
    and "registry w = Some reg"
  shows "IngestionSession_write X self s sample w =
           (Inr AKU_SUCCESS, s,
            w\<lparr>heap := (heap w)(h := t),
               registry := Some (TreeRegistry_update_rescue_points (paramid sample)
                                   (extl_get_roots X t) reg)\<rparr>)"
  using assms by (simp add: IngestionSession_write_def write_append_def)

subsection \<open>Reading a series name into a buffer\<close>

text \<open>
  C2. The claim says that a buffer shorter than the name makes \<open>get_series_name\<close> return
  the negated length and write nothing, also when the name comes from the session's local
  matcher. The registry's function compares the sizes; the session's own branch copies
  without looking at \<open>buffer_size\<close>. With the three-byte name \<open>abc\<close> of series 1 and a
  two-byte buffer, session 1 (which has the name cached) writes past the buffer, while
  session 2 (which asks the registry) gets \<open>-3\<close> and an untouched buffer.
\<close>

theorem get_series_name_cached_overruns:
  "call_get_series_name 1 1 ''__'' 2 abc_world = Some (Inl BufferOverrun) \<and>
   call_get_series_name 2 1 ''__'' 2 abc_world = Some (Inr (- 3, ''__''))"
  by (simp add: model_defs)

text \<open>The registry's function by itself follows the convention, for sizes below \<open>2^31\<close>.\<close>

lemma sint_ucast_small:
  fixes buffer_size :: "64 word"
  assumes "buffer_size < 2 ^ 31"
  shows "sint (ucast buffer_size :: 32 word) = int (unat buffer_size)"
proof -
  have u: "uint buffer_size < 2 ^ 31"
    using assms by (simp add: word_less_def)
  have "sint (ucast buffer_size :: 32 word) = signed_take_bit 31 (uint buffer_size)"
    by (simp add: signed_ucast_eq)
  also have "\<dots> = uint buffer_size"
  proof (rule signed_take_bit_int_eq_self)
    show "- (2 ^ 31) \<le> uint buffer_size"
      by (rule order_trans [of _ 0]) simp_all
    show "uint buffer_size < 2 ^ 31" by (rule u)
  qed
  finally show ?thesis by simp
qed

lemma TreeRegistry_get_series_name_convention:
  assumes "unat buffer_size = length buffer" and "buffer_size < 2 ^ 31"
  shows "fst (TreeRegistry_get_series_name i buffer buffer_size lm r) =
           (case SeriesMatcher_id2str (global_matcher r) i of
              None \<Rightarrow> Inr (0, buffer)
            | Some str \<Rightarrow>
                if length str \<le> length buffer
                then Inr (int (length str), str @ drop (length str) buffer)
                else Inr (- int (length str), buffer))"
  using assms(1) sint_ucast_small [OF assms(2)]
  by (auto simp: TreeRegistry_get_series_name_def memcpy_def Let_def split: option.splits)

subsection \<open>Rescue points and the metadata store\<close>

text \<open>
  C8. \<open>update_rescue_points\<close> replaces the buffered address list of the id and leaves the
  other ids alone; after \<open>update_rescue_points i R\<close> and a sync that succeeds, the metadata
  store holds \<open>R\<close> for \<open>i\<close> and the registry's buffer is empty.
\<close>

theorem update_rescue_points_replace_then_sync:
  "map_of (rescue_points (TreeRegistry_update_rescue_points i addrs r)) =
     (map_of (rescue_points r))(i \<mapsto> addrs) \<and>
   (TreeRegistry_sync_with_metadata_storage ins MetadataStorage_upsert_rescue_points
      (TreeRegistry_update_rescue_points i R r) meta = (Inr u, r2, meta2) \<longrightarrow>
    stored_rescue_points meta2 i = Some R \<and> rescue_points r2 = [] \<and>
    map_of (rescue_points r2) i = None)"
  by (auto simp: TreeRegistry_update_rescue_points_def update_conv'
        TreeRegistry_sync_with_metadata_storage_def SeriesMatcher_pull_new_names_def
        MetadataStorage_upsert_rescue_points_def Let_def split: sum.splits)

theorem update_rescue_points_replace_then_sync_witness:
  "TreeRegistry_sync_with_metadata_storage
     (MetadataStorage_insert_new_names ::
        (string \<times> aku_ParamId) list \<Rightarrow> MetadataStorage \<Rightarrow> unit + MetadataStorage)
     MetadataStorage_upsert_rescue_points
     (TreeRegistry_update_rescue_points 1 [0xAA, 0xBB]
        (TreeRegistry_update_rescue_points 1 [0x11] TreeRegistry_new))
     MetadataStorage_new =
     (Inr (), TreeRegistry_new,
      \<lparr>stored_names = [], stored_rescue_points = [1 \<mapsto> [0xAA, 0xBB]]\<rparr>) \<and>
   stored_rescue_points
     \<lparr>stored_names = [], stored_rescue_points = [1 \<mapsto> [0xAA, 0xBB]]\<rparr> 1 = Some [0xAA, 0xBB]"
proof -
  have e: "TreeRegistry_sync_with_metadata_storage
     (MetadataStorage_insert_new_names ::
        (string \<times> aku_ParamId) list \<Rightarrow> MetadataStorage \<Rightarrow> unit + MetadataStorage)
     MetadataStorage_upsert_rescue_points
     (TreeRegistry_update_rescue_points 1 [0xAA, 0xBB]
        (TreeRegistry_update_rescue_points 1 [0x11] TreeRegistry_new))
     MetadataStorage_new =
     (Inr (), TreeRegistry_new,
      \<lparr>stored_names = [], stored_rescue_points = [1 \<mapsto> [0xAA, 0xBB]]\<rparr>)"
    by (simp add: model_defs)
  from update_rescue_points_replace_then_sync
         [of 1 "[0xAA, 0xBB]" "TreeRegistry_update_rescue_points 1 [0x11] TreeRegistry_new"
             "MetadataStorage_insert_new_names" "[0xAA, 0xBB]" MetadataStorage_new
             "()" TreeRegistry_new
             "\<lparr>stored_names = [], stored_rescue_points = [1 \<mapsto> [0xAA, 0xBB]]\<rparr>"] e
  show ?thesis by simp
qed

text \<open>
  C3. When \<open>insert_new_names\<close> fails, or it succeeds and \<open>upsert_rescue_points\<close> fails,
  the sync returns that failure to its caller and the registry's \<open>rescue_points\<close> are what
  they were before the call.
\<close>

theorem sync_failure_keeps_rescue_points:
  assumes "ins (sm_names (global_matcher r)) meta = Inl e \<or>
           (\<exists>meta1. ins (sm_names (global_matcher r)) meta = Inr meta1 \<and>
                    ups (rescue_points r) meta1 = Inl e)"
  shows "fst (TreeRegistry_sync_with_metadata_storage ins ups r meta) = Inl e \<and>
         rescue_points (fst (snd (TreeRegistry_sync_with_metadata_storage ins ups r meta))) =
           rescue_points r"
  using assms
  by (auto simp: TreeRegistry_sync_with_metadata_storage_def SeriesMatcher_pull_new_names_def)

theorem sync_failure_keeps_rescue_points_witness:
  "rescue_points (fst (snd (TreeRegistry_sync_with_metadata_storage
      (\<lambda>ns m. Inl ''insert failed'') MetadataStorage_upsert_rescue_points
      (TreeRegistry_update_rescue_points 1 [0xAA] TreeRegistry_new) MetadataStorage_new))) =
     [(1, [0xAA])] \<and>
   fst (TreeRegistry_sync_with_metadata_storage
      MetadataStorage_insert_new_names (\<lambda>rp m. Inl ''upsert failed'')
      (TreeRegistry_update_rescue_points 1 [0xAA] TreeRegistry_new) MetadataStorage_new) =
     Inl ''upsert failed'' \<and>
   rescue_points (fst (snd (TreeRegistry_sync_with_metadata_storage
      MetadataStorage_insert_new_names (\<lambda>rp m. Inl ''upsert failed'')
      (TreeRegistry_update_rescue_points 1 [0xAA] TreeRegistry_new) MetadataStorage_new))) =
     [(1, [0xAA])]"
proof -
  let ?r = "TreeRegistry_update_rescue_points 1 [0xAA] TreeRegistry_new"
  have rp: "rescue_points ?r = [(1, [0xAA])]"
    by (simp add: model_defs)
  have a: "rescue_points (fst (snd (TreeRegistry_sync_with_metadata_storage
      (\<lambda>ns m. Inl ''insert failed'') MetadataStorage_upsert_rescue_points ?r
      MetadataStorage_new))) = rescue_points ?r"
    using sync_failure_keeps_rescue_points
            [of "\<lambda>ns m. Inl ''insert failed''" ?r MetadataStorage_new "''insert failed''"
                MetadataStorage_upsert_rescue_points]
    by simp
  have b: "fst (TreeRegistry_sync_with_metadata_storage
      MetadataStorage_insert_new_names (\<lambda>rp m. Inl ''upsert failed'') ?r
      MetadataStorage_new) = Inl ''upsert failed'' \<and>
    rescue_points (fst (snd (TreeRegistry_sync_with_metadata_storage
      MetadataStorage_insert_new_names (\<lambda>rp m. Inl ''upsert failed'') ?r
      MetadataStorage_new))) = rescue_points ?r"
    using sync_failure_keeps_rescue_points
            [of MetadataStorage_insert_new_names ?r MetadataStorage_new "''upsert failed''"
                "\<lambda>rp m. Inl ''upsert failed''"]
    by (simp add: MetadataStorage_insert_new_names_def)
  show ?thesis using a b rp by simp
qed

subsection \<open>The ownership invariant holds in every reachable world\<close>

lemma holds_upd: "holds (cm(k \<mapsto> c)) k' i = (if k' = k then map_of c i \<noteq> None else holds cm k' i)"
  by (simp add: holds_def)

lemma holds_del: "holds (cm(k := None)) k' i = (k' \<noteq> k \<and> holds cm k' i)"
  by (simp add: holds_def)

lemma holds_None: "cm k = None \<Longrightarrow> \<not> holds cm k i"
  by (simp add: holds_def)

lemma holds_SomeD: "holds cm k i \<Longrightarrow> \<exists>c h. cm k = Some c \<and> map_of c i = Some h"
  by (auto simp: holds_def split: option.splits)

lemma holds_SomeI: "cm k = Some c \<Longrightarrow> map_of c i = Some h \<Longrightarrow> holds cm k i"
  by (simp add: holds_def)

lemma holds_new: "cm k = None \<Longrightarrow> holds (cm(k \<mapsto> [])) k' i = holds cm k' i"
  by (simp add: holds_def)

lemma holder_new: "cm k = None \<Longrightarrow> holder (cm(k \<mapsto> [])) i = holder cm i"
  by (simp add: holder_def holds_new)

lemma own_inv_new_session:
  assumes "own_inv tb nx cm ext uc" "cm k = None"
  shows "own_inv tb nx (cm(k \<mapsto> [])) ext uc"
proof -
  have h: "handles_ok tb (cm(k \<mapsto> [])) ext"
    using assms unfolding own_inv_def handles_ok_def
    by (simp split: if_splits)
  have d: "\<forall>k' c. (cm(k \<mapsto> [])) k' = Some c \<longrightarrow> distinct (map fst c)"
    using assms unfolding own_inv_def by (simp split: if_splits)
  show ?thesis
    using assms(1) h d unfolding own_inv_def
    by (simp only: holds_new[of cm k, OF assms(2)] holder_new[of cm k, OF assms(2)]) blast
qed

lemma own_invD:
  assumes "own_inv tb nx cm ext uc"
  shows "\<And>i e. tb i = Some e \<Longrightarrow> roots e = i \<and> i < nx"
    and "handles_ok tb cm ext"
    and "\<And>k c. cm k = Some c \<Longrightarrow> distinct (map fst c)"
    and "\<And>k1 k2 i. holds cm k1 i \<Longrightarrow> holds cm k2 i \<Longrightarrow> k1 = k2"
    and "distinct ext"
    and "\<And>h. h \<in> set ext \<Longrightarrow> tb h \<noteq> None"
    and "\<And>i. tb i \<noteq> None \<Longrightarrow> uc i = (if holder cm i \<or> i \<in> set ext then 2 else 1)"
  using assms unfolding own_inv_def by blast+

lemma own_invI:
  assumes "\<And>i e. tb i = Some e \<Longrightarrow> roots e = i \<and> i < nx"
    and "handles_ok tb cm ext"
    and "\<And>k c. cm k = Some c \<Longrightarrow> distinct (map fst c)"
    and "\<And>k1 k2 i. holds cm k1 i \<Longrightarrow> holds cm k2 i \<Longrightarrow> k1 = k2"
    and "distinct ext"
    and "\<And>h. h \<in> set ext \<Longrightarrow> tb h \<noteq> None"
    and "\<And>i. tb i \<noteq> None \<Longrightarrow> uc i = (if holder cm i \<or> i \<in> set ext then 2 else 1)"
  shows "own_inv tb nx cm ext uc"
  using assms unfolding own_inv_def by blast

lemma holds_tb: "handles_ok tb cm ext \<Longrightarrow> holds cm k i \<Longrightarrow> tb i \<noteq> None \<and> i \<notin> set ext"
  unfolding handles_ok_def by (blast dest: holds_SomeD)

lemma own_inv_new_series:
  assumes "own_inv tb nx cm ext uc"
  shows "own_inv (tb(nx \<mapsto> \<lparr>roots = nx\<rparr>)) (Suc nx) cm ext (uc(nx := 1))"
proof -
  note D = own_invD[OF assms]
  have t: "tb nx = None" using D(1)[of nx] by (cases "tb nx") auto
  have f: "\<not> holder cm nx" using holds_tb[OF D(2)] t unfolding holder_def by blast
  have e: "nx \<notin> set ext" using D(6) t by blast
  show ?thesis
  proof (rule own_invI)
    fix i e' assume "(tb(nx \<mapsto> \<lparr>roots = nx\<rparr>)) i = Some e'"
    then show "roots e' = i \<and> i < Suc nx"
      using D(1)[of i e'] by (auto split: if_splits simp: less_Suc_eq)
  next
    show "handles_ok (tb(nx \<mapsto> \<lparr>roots = nx\<rparr>)) cm ext"
      using D(2) unfolding handles_ok_def by auto
  next
    fix i assume "(tb(nx \<mapsto> \<lparr>roots = nx\<rparr>)) i \<noteq> None"
    then show "(uc(nx := 1)) i = (if holder cm i \<or> i \<in> set ext then 2 else 1)"
      using D(7)[of i] f e by (auto split: if_splits)
  qed (use D in auto)
qed

lemma own_inv_acquire:
  assumes "own_inv tb nx cm ext uc" "tb i = Some e" "uc (roots e) = 1" "cm k = Some c"
  shows "own_inv tb nx (cm(k \<mapsto> AList.update i (roots e) c)) ext
           (uc(roots e := uc (roots e) + 1))"
proof -
  note D = own_invD[OF assms(1)]
  have r: "roots e = i" using D(1)[OF assms(2)] by simp
  have u: "uc i = 1" using assms(3) r by simp
  have "uc i = (if holder cm i \<or> i \<in> set ext then 2 else 1)"
    using D(7)[of i] assms(2) by simp
  then have "\<not> (holder cm i \<or> i \<in> set ext)"
    using u by (cases "holder cm i \<or> i \<in> set ext") simp_all
  then have nh: "\<not> holder cm i" and ne: "i \<notin> set ext" by simp_all
  have hs: "\<And>k' j. holds (cm(k \<mapsto> AList.update i (roots e) c)) k' j =
              ((k' = k \<and> j = i) \<or> holds cm k' j)"
    using assms(4) by (auto simp: holds_def update_conv' r)
  have hr: "\<And>j. holder (cm(k \<mapsto> AList.update i (roots e) c)) j = (j = i \<or> holder cm j)"
    unfolding holder_def hs by blast
  show ?thesis
  proof (rule own_invI)
    show "handles_ok tb (cm(k \<mapsto> AList.update i (roots e) c)) ext"
      using D(2) assms(2,4) ne unfolding handles_ok_def
      by (auto simp: update_conv' r split: if_splits)
  next
    fix k' c' assume "(cm(k \<mapsto> AList.update i (roots e) c)) k' = Some c'"
    then show "distinct (map fst c')"
      using D(3) assms(4) by (auto split: if_splits simp: distinct_update)
  next
    fix k1 k2 j
    assume "holds (cm(k \<mapsto> AList.update i (roots e) c)) k1 j"
       and "holds (cm(k \<mapsto> AList.update i (roots e) c)) k2 j"
    then show "k1 = k2"
      unfolding hs using D(4)[of k1 j k2] nh by (auto simp: holder_def)
  next
    fix j assume "tb j \<noteq> None"
    then show "(uc(roots e := uc (roots e) + 1)) j =
                 (if holder (cm(k \<mapsto> AList.update i (roots e) c)) j \<or> j \<in> set ext then 2 else 1)"
      unfolding hr using D(7)[of j] u r by auto
  qed (use D in auto)
qed

lemma own_inv_ext_acquire:
  assumes "own_inv tb nx cm ext uc" "tb i = Some e" "uc (roots e) = 1"
  shows "own_inv tb nx cm (roots e # ext) (uc(roots e := uc (roots e) + 1))"
proof -
  note D = own_invD[OF assms(1)]
  have r: "roots e = i" using D(1)[OF assms(2)] by simp
  have u: "uc i = 1" using assms(3) r by simp
  have "uc i = (if holder cm i \<or> i \<in> set ext then 2 else 1)"
    using D(7)[of i] assms(2) by simp
  then have "\<not> (holder cm i \<or> i \<in> set ext)"
    using u by (cases "holder cm i \<or> i \<in> set ext") simp_all
  then have nh: "\<not> holder cm i" and ne: "i \<notin> set ext" by simp_all
  show ?thesis
  proof (rule own_invI)
    show "handles_ok tb cm (roots e # ext)"
      using D(2) nh unfolding handles_ok_def r
      by (auto simp: holder_def dest: holds_SomeI)
  next
    fix j assume "tb j \<noteq> None"
    then show "(uc(roots e := uc (roots e) + 1)) j =
                 (if holder cm j \<or> j \<in> set (roots e # ext) then 2 else 1)"
      using D(7)[of j] u r by auto
  qed (use D assms(2) r ne in auto)
qed

lemma own_inv_ext_drop:
  assumes "own_inv tb nx cm ext uc" "h \<in> set ext"
  shows "own_inv tb nx cm (remove1 h ext) (uc(h := uc h - 1))"
proof -
  note D = own_invD[OF assms(1)]
  have t: "tb h \<noteq> None" using D(6) assms(2) by blast
  have nh: "\<not> holder cm h"
    using holds_tb[OF D(2)] assms(2) by (auto simp: holder_def)
  have u: "uc h = 2" using D(7)[OF t] assms(2) by simp
  show ?thesis
  proof (rule own_invI)
    show "handles_ok tb cm (remove1 h ext)"
      using D(2) unfolding handles_ok_def by (auto dest: notin_set_remove1)
  next
    fix j assume "tb j \<noteq> None"
    then show "(uc(h := uc h - 1)) j =
                 (if holder cm j \<or> j \<in> set (remove1 h ext) then 2 else 1)"
      using D(7)[of j] u nh D(5) by (auto simp: set_remove1_eq)
  next
    fix x assume "x \<in> set (remove1 h ext)"
    then show "tb x \<noteq> None" using D(6) by (auto dest: notin_set_remove1)
  qed (use D in auto)
qed

lemma own_inv_delete:
  assumes "own_inv tb nx cm ext uc" "cm k = Some c"
  shows "own_inv tb nx (cm(k := None)) ext
           (\<lambda>x. if map_of c x \<noteq> None then uc x - 1 else uc x)"
proof -
  note D = own_invD[OF assms(1)]
  have hk: "\<And>j. holds cm k j = (map_of c j \<noteq> None)"
    using assms(2) by (simp add: holds_def)
  have hr: "\<And>j. holder (cm(k := None)) j = (holder cm j \<and> map_of c j = None)"
  proof -
    fix j
    show "holder (cm(k := None)) j = (holder cm j \<and> map_of c j = None)"
      unfolding holder_def holds_del using D(4)[of _ j k] hk[of j] by metis
  qed
  show ?thesis
  proof (rule own_invI)
    show "handles_ok tb (cm(k := None)) ext"
      using D(2) unfolding handles_ok_def by (auto split: if_splits)
  next
    fix k1 k2 j assume "holds (cm(k := None)) k1 j" "holds (cm(k := None)) k2 j"
    then show "k1 = k2" unfolding holds_del using D(4) by blast
  next
    fix j assume t: "tb j \<noteq> None"
    show "(if map_of c j \<noteq> None then uc j - 1 else uc j) =
            (if holder (cm(k := None)) j \<or> j \<in> set ext then 2 else 1)"
    proof (cases "map_of c j")
      case None
      then show ?thesis unfolding hr using D(7)[OF t] by simp
    next
      case (Some h)
      then have "holds cm k j" using hk by simp
      then have "holder cm j" "j \<notin> set ext"
        using holds_tb[OF D(2)] by (auto simp: holder_def)
      then show ?thesis unfolding hr using D(7)[OF t] Some by simp
    qed
  next
    fix k' c' assume "(cm(k := None)) k' = Some c'"
    then show "distinct (map fst c')" using D(3) by (auto split: if_splits)
  qed (use D in auto)
qed

lemma caches_of_upd [simp]: "caches_of (ss(k \<mapsto> s)) = (caches_of ss)(k \<mapsto> cache s)"
  by (rule ext) (simp add: caches_of_def)

lemma caches_of_del [simp]: "caches_of (ss(k := None)) = (caches_of ss)(k := None)"
  by (rule ext) (simp add: caches_of_def)

lemma caches_of_Some: "ss k = Some s \<Longrightarrow> caches_of ss k = Some (cache s)"
  by (simp add: caches_of_def)

lemma caches_of_None: "ss k = None \<Longrightarrow> caches_of ss k = None"
  by (simp add: caches_of_def)

lemma caches_of_same: "ss k = Some s \<Longrightarrow> cache s' = cache s \<Longrightarrow> (caches_of ss)(k \<mapsto> cache s') = caches_of ss"
  by (rule ext) (simp add: caches_of_def)

lemma own_ok_init: "own_ok (init_world X)"
  by (simp add: own_ok_def init_world_def TreeRegistry_new_def own_inv_def handles_ok_def
        holds_def holder_def caches_of_def)

lemma own_ok_registry:
  "own_ok w \<Longrightarrow> registry w \<noteq> None"
  by (auto simp: own_ok_def split: option.splits)

lemma release_fields [simp]:
  "registry (release h w) = registry w" "sessions (release h w) = sessions w"
  "external (release h w) = external w" "heap (release h w) = heap w"
  by (simp_all add: release_def)

lemma use_count_release:
  "use_count (release h w) x = (if x = h then use_count w h - 1 else use_count w x)"
  by (simp add: release_def)

lemma destroy_fields [simp]:
  "registry (fold (\<lambda>(i, h). release h) c w) = registry w"
  "sessions (fold (\<lambda>(i, h). release h) c w) = sessions w"
  "external (fold (\<lambda>(i, h). release h) c w) = external w"
  "heap (fold (\<lambda>(i, h). release h) c w) = heap w"
  by (induction c arbitrary: w; simp add: split_def)+

lemma destroy_use_count:
  assumes "\<forall>(i, h) \<in> set c. h = i" "distinct (map fst c)"
  shows "use_count (fold (\<lambda>(i, h). release h) c w) x =
           (if map_of c x \<noteq> None then use_count w x - 1 else use_count w x)"
  using assms
proof (induction c arbitrary: w)
  case Nil
  then show ?case by simp
next
  case (Cons p c)
  obtain i h where p: "p = (i, h)" by (cases p)
  from Cons.prems p have hi: "h = i" and ni: "i \<notin> fst ` set c" by auto
  from ni have m: "map_of c i = None" by (simp add: map_of_eq_None_iff)
  have "use_count (fold (\<lambda>(i, h). release h) c (release h w)) x =
          (if map_of c x \<noteq> None then use_count (release h w) x - 1 else use_count (release h w) x)"
    using Cons.IH[of "release h w"] Cons.prems by simp
  then show ?case using p hi m by (auto simp: use_count_release)
qed

lemma own_ok_cong:
  assumes "registry w = Some r" "registry w' = Some r'" "table r' = table r"
    "sm_series_id (global_matcher r') = sm_series_id (global_matcher r)"
    "caches_of (sessions w') = caches_of (sessions w)" "external w' = external w"
    "use_count w' = use_count w"
  shows "own_ok w' = own_ok w"
  using assms by (simp add: own_ok_def)

lemma own_ok_same_session:
  assumes "own_ok w" "sessions w k = Some s" "cache s' = cache s"
  shows "own_ok (w\<lparr>sessions := (sessions w)(k \<mapsto> s')\<rparr>)"
  using assms by (auto simp: own_ok_def caches_of_same split: option.splits)

lemma own_ok_heap [simp]: "own_ok (w\<lparr>heap := f\<rparr>) = own_ok w"
  by (simp add: own_ok_def split: option.splits)

lemma heap_frame_refl: "\<exists>f. w = w\<lparr>heap := f\<rparr>"
  by (rule exI[of _ "heap w"]) simp

lemma own_ok_create:
  assumes "own_ok w"
  shows "own_ok (exec X (CreateSession k) w)"
  using assms
  by (auto simp: own_ok_def TreeRegistry_create_session_def IngestionSession_new_def
        caches_of_None intro!: own_inv_new_session split: option.splits)

lemma own_ok_close:
  assumes "own_ok w"
  shows "own_ok (exec X (Close k) w)"
  using assms
  by (auto simp: own_ok_def IngestionSession_close_def TreeRegistry_remove_dispatcher_def
        split: option.splits)

lemma own_inv_pairs:
  assumes "own_inv tb nx cm ext uc" "cm k = Some c"
  shows "\<forall>(i, h) \<in> set c. h = i" "distinct (map fst c)"
proof -
  note D = own_invD[OF assms(1)]
  show d: "distinct (map fst c)" using D(3)[OF assms(2)] .
  show "\<forall>(i, h) \<in> set c. h = i"
  proof (clarify)
    fix i h assume "(i, h) \<in> set c"
    then have "map_of c i = Some h" using d by simp
    then show "h = i" using D(2) assms(2) unfolding handles_ok_def by blast
  qed
qed

lemma own_ok_delete:
  assumes "own_ok w"
  shows "own_ok (exec X (DeleteSession k) w)"
proof (cases "sessions w k")
  case None
  then show ?thesis using assms by simp
next
  case (Some s)
  from assms obtain r where r: "registry w = Some r"
    and inv: "own_inv (table r) (sm_series_id (global_matcher r)) (caches_of (sessions w))
                (external w) (use_count w)"
    by (auto simp: own_ok_def split: option.splits)
  have c: "caches_of (sessions w) k = Some (cache s)" using Some by (rule caches_of_Some)
  note P = own_inv_pairs[OF inv c]
  have u: "\<And>w0. use_count (fold (\<lambda>(i, h). release h) (cache s) w0) =
           (\<lambda>x. if map_of (cache s) x \<noteq> None then use_count w0 x - 1 else use_count w0 x)"
    by (rule ext) (simp add: destroy_use_count[OF P])
  show ?thesis
    using Some r own_inv_delete[OF inv c]
    by (simp add: own_ok_def session_deleter_def IngestionSession_close_def
          IngestionSession_destroy_def u TreeRegistry_remove_dispatcher_def Let_def
          cong: if_cong)
qed

lemma own_ok_try_acquire:
  assumes "own_ok w"
  shows "own_ok (exec X (TryAcquire i) w)"
proof -
  from assms obtain r where r: "registry w = Some r"
    and inv: "own_inv (table r) (sm_series_id (global_matcher r)) (caches_of (sessions w))
                (external w) (use_count w)"
    by (auto simp: own_ok_def split: option.splits)
  show ?thesis
  proof (cases "table r i")
    case None
    then show ?thesis using assms r by (simp add: TreeRegistry_try_acquire_def)
  next
    case (Some e)
    show ?thesis
    proof (cases "use_count w (roots e) = 1")
      case True
      then show ?thesis
        using r Some own_inv_ext_acquire[OF inv Some True]
        by (simp add: TreeRegistry_try_acquire_def RegistryEntry_try_acquire_def own_ok_def)
    next
      case False
      then show ?thesis
        using r Some assms
        by (simp add: TreeRegistry_try_acquire_def RegistryEntry_try_acquire_def)
    qed
  qed
qed

lemma own_ok_drop:
  assumes "own_ok w"
  shows "own_ok (exec X (DropHandle h) w)"
proof (cases "h \<in> set (external w)")
  case False
  then show ?thesis using assms by simp
next
  case True
  from assms obtain r where r: "registry w = Some r"
    and inv: "own_inv (table r) (sm_series_id (global_matcher r)) (caches_of (sessions w))
                (external w) (use_count w)"
    by (auto simp: own_ok_def split: option.splits)
  show ?thesis
    using True r own_inv_ext_drop[OF inv True]
    by (simp add: own_ok_def release_def)
qed

lemma receive_broadcast_frame:
  "\<exists>f. snd (IngestionSession_receive_broadcast X s sample w) = w\<lparr>heap := f\<rparr>"
proof (cases "map_of (cache s) (paramid sample)")
  case None
  then show ?thesis using heap_frame_refl[of w]
    by (simp add: IngestionSession_receive_broadcast_def)
next
  case (Some h)
  then show ?thesis
    by (auto simp: IngestionSession_receive_broadcast_def split: prod.splits)
qed

lemma broadcast_loop_frame:
  "\<exists>f. snd (broadcast_loop X ks sample source w) = w\<lparr>heap := f\<rparr>"
proof (induction ks arbitrary: w)
  case Nil
  then show ?case using heap_frame_refl[of w] by simp
next
  case (Cons k ks)
  show ?case
  proof (cases "sessions w k")
    case None
    then show ?thesis using Cons.IH[of w] by simp
  next
    case (Some disp)
    show ?thesis
    proof (cases "k = source")
      case True
      then show ?thesis using Some Cons.IH[of w] by simp
    next
      case False
      obtain stop result w1 where rb:
        "IngestionSession_receive_broadcast X disp sample w = ((stop, result), w1)"
        by (metis prod.exhaust)
      obtain f where f: "w1 = w\<lparr>heap := f\<rparr>"
        using receive_broadcast_frame[of X disp sample w] rb by auto
      show ?thesis
      proof (cases stop)
        case True
        then show ?thesis using Some False rb f by auto
      next
        case F: False
        obtain g where "snd (broadcast_loop X ks sample source w1) = w1\<lparr>heap := g\<rparr>"
          using Cons.IH[of w1] by auto
        then show ?thesis using Some False rb f F by auto
      qed
    qed
  qed
qed

lemma own_ok_receive:
  assumes "own_ok w"
  shows "own_ok (exec X (ReceiveBroadcast k sample) w)"
proof (cases "sessions w k")
  case None
  then show ?thesis using assms by simp
next
  case (Some s)
  obtain f where "snd (IngestionSession_receive_broadcast X s sample w) = w\<lparr>heap := f\<rparr>"
    using receive_broadcast_frame by blast
  then show ?thesis using Some assms by simp
qed

lemma TreeRegistry_init_own:
  assumes "own_inv (table r) (sm_series_id (global_matcher r)) cm (external w) (use_count w)"
    and "TreeRegistry_init_series_id X name lm r w = (st, i, lm1, r1, w1)"
  shows "own_inv (table r1) (sm_series_id (global_matcher r1)) cm (external w1) (use_count w1)
         \<and> sessions w1 = sessions w \<and> registry w1 = registry w"
proof (cases "SeriesMatcher_match (global_matcher r) name = 0")
  case False
  then show ?thesis using assms by (simp add: TreeRegistry_init_series_id_def Let_def)
next
  case True
  then show ?thesis
    using assms(2) own_inv_new_series[OF assms(1)]
    by (auto simp: TreeRegistry_init_series_id_def SeriesMatcher_add_def Let_def)
qed

lemma own_ok_init_series:
  assumes "own_ok w"
  shows "own_ok (exec X (InitSeriesId k raw) w)"
proof (cases "sessions w k")
  case None
  then show ?thesis using assms by simp
next
  case (Some s)
  from assms obtain r where r: "registry w = Some r"
    and inv: "own_inv (table r) (sm_series_id (global_matcher r)) (caches_of (sessions w))
                (external w) (use_count w)"
    by (auto simp: own_ok_def split: option.splits)
  obtain status name where nf: "to_normal_form X raw = (status, name)" by (cases "to_normal_form X raw")
  obtain st i lm1 r1 w1 where ti:
    "TreeRegistry_init_series_id X name (local_matcher s) r w = (st, i, lm1, r1, w1)"
    by (metis prod.exhaust)
  note T = TreeRegistry_init_own[OF inv ti]
  have same: "own_ok (w\<lparr>sessions := (sessions w)(k \<mapsto> s)\<rparr>)"
    using own_ok_same_session[OF assms Some refl] by simp
  have new: "own_ok (w1\<lparr>registry := Some r1, sessions := (sessions w1)(k \<mapsto> s\<lparr>local_matcher := lm1\<rparr>)\<rparr>)"
    using T Some by (simp add: own_ok_def caches_of_same)
  show ?thesis
    using Some r nf ti same new
    by (simp add: IngestionSession_init_series_id_def Let_def)
qed

lemma write_result_shape:
  assumes "IngestionSession_write X k s sample w = (res, s', w')"
    and "ptype (payload sample) = AKU_PAYLOAD_FLOAT"
  shows "case write_append X k s sample (map_of (cache s) (paramid sample)) w of
           Inl f \<Rightarrow> s' = s \<and> w' = w
         | Inr (st, ar, s1, w1) \<Rightarrow>
             s' = s1 \<and>
             (w' = w1 \<or>
              (\<exists>reg a. registry w1 = Some reg \<and>
                 w' = w1\<lparr>registry :=
                        Some (TreeRegistry_update_rescue_points (paramid sample) a reg)\<rparr>))"
  using assms
  by (auto simp: IngestionSession_write_def Let_def
           split: sum.splits prod.splits NBTreeAppendResult.splits option.splits if_splits)

lemma write_append_own_ok:
  assumes "own_ok w" "sessions w k = Some s"
    and "write_append X k s sample (map_of (cache s) (paramid sample)) w = Inr (st, ar, s1, w1)"
  shows "own_ok (w1\<lparr>sessions := (sessions w1)(k \<mapsto> s1)\<rparr>)"
proof -
  from assms(1) obtain r where r: "registry w = Some r"
    and inv: "own_inv (table r) (sm_series_id (global_matcher r)) (caches_of (sessions w))
                (external w) (use_count w)"
    by (auto simp: own_ok_def split: option.splits)
  have same: "\<And>f. own_ok (w\<lparr>heap := f, sessions := (sessions w)(k \<mapsto> s)\<rparr>)"
    using own_ok_same_session[OF assms(1,2) refl] by (simp add: own_ok_def split: option.splits)
  show ?thesis
  proof (cases "map_of (cache s) (paramid sample)")
    case (Some h)
    then show ?thesis using assms(3) same
      by (auto simp: write_append_def Let_def split: prod.splits)
  next
    case None
    show ?thesis
    proof (cases "table r (paramid sample)")
      case N: None
      then show ?thesis
        using assms(3) None r same[of "heap w"]
        by (auto simp: write_append_def Let_def TreeRegistry_try_acquire_def)
    next
      case (Some e)
      show ?thesis
      proof (cases "use_count w (roots e) = 1")
        case True
        have c: "caches_of (sessions w) k = Some (cache s)"
          using assms(2) by (rule caches_of_Some)
        note A = own_inv_acquire[OF inv Some True c]
        show ?thesis
          using assms(3) None r Some True A
          by (auto simp: write_append_def Let_def TreeRegistry_try_acquire_def
                RegistryEntry_try_acquire_def own_ok_def split: prod.splits)
      next
        case False
        obtain f where f: "snd (broadcast_loop X (active r) sample k w) = w\<lparr>heap := f\<rparr>"
          using broadcast_loop_frame by blast
        show ?thesis
          using assms(3) None r Some False f same[of f]
          by (auto simp: write_append_def Let_def TreeRegistry_try_acquire_def
                RegistryEntry_try_acquire_def TreeRegistry_broadcast_sample_def
                split: prod.splits)
      qed
    qed
  qed
qed

lemma own_ok_rescue:
  assumes "own_ok w" "registry w = Some reg"
  shows "own_ok (w\<lparr>registry := Some (TreeRegistry_update_rescue_points i a reg)\<rparr>)"
  using assms by (simp add: own_ok_def TreeRegistry_update_rescue_points_def)

lemma own_ok_write:
  assumes "own_ok w"
  shows "own_ok (exec X (Write k sample) w)"
proof (cases "sessions w k")
  case None
  then show ?thesis using assms by simp
next
  case (Some s)
  obtain res s' w' where wr: "IngestionSession_write X k s sample w = (res, s', w')"
    by (metis prod.exhaust)
  have same: "own_ok (w\<lparr>sessions := (sessions w)(k \<mapsto> s)\<rparr>)"
    using own_ok_same_session[OF assms Some refl] by simp
  have goal: "own_ok (w'\<lparr>sessions := (sessions w')(k \<mapsto> s')\<rparr>)"
  proof (cases "ptype (payload sample) = AKU_PAYLOAD_FLOAT")
    case False
    then show ?thesis using wr same by (simp add: IngestionSession_write_def)
  next
    case True
    note S = write_result_shape[OF wr True]
    show ?thesis
    proof (cases "write_append X k s sample (map_of (cache s) (paramid sample)) w")
      case (Inl f)
      then show ?thesis using S same by simp
    next
      case (Inr t)
      obtain st ar s1 w1 where t: "t = (st, ar, s1, w1)" by (metis prod.exhaust)
      note O = write_append_own_ok[OF assms Some Inr[unfolded t]]
      from S Inr t have s1: "s' = s1" and
        w: "w' = w1 \<or> (\<exists>reg a. registry w1 = Some reg \<and>
                 w' = w1\<lparr>registry :=
                        Some (TreeRegistry_update_rescue_points (paramid sample) a reg)\<rparr>)"
        by simp_all
      from w show ?thesis
      proof
        assume "w' = w1"
        then show ?thesis using O s1 by simp
      next
        assume "\<exists>reg a. registry w1 = Some reg \<and>
                 w' = w1\<lparr>registry :=
                        Some (TreeRegistry_update_rescue_points (paramid sample) a reg)\<rparr>"
        then obtain reg a where reg: "registry w1 = Some reg"
          and w': "w' = w1\<lparr>registry :=
                        Some (TreeRegistry_update_rescue_points (paramid sample) a reg)\<rparr>"
          by blast
        have "own_ok (w1\<lparr>sessions := (sessions w1)(k \<mapsto> s1)\<rparr>
                \<lparr>registry := Some (TreeRegistry_update_rescue_points (paramid sample) a reg)\<rparr>)"
          by (rule own_ok_rescue[OF O]) (simp add: reg)
        then show ?thesis using w' s1 by (simp add: own_ok_def split: option.splits)
      qed
    qed
  qed
  show ?thesis using Some wr goal by simp
qed

lemma exec_own_ok: "own_ok w \<Longrightarrow> own_ok (exec X op w)"
  by (cases op)
     (simp_all only: own_ok_create own_ok_close own_ok_delete own_ok_init_series
        own_ok_write own_ok_receive own_ok_try_acquire own_ok_drop)

lemma fold_own_ok: "own_ok w \<Longrightarrow> own_ok (fold (exec X) ops w)"
  by (induction ops arbitrary: w) (simp_all add: exec_own_ok)

lemma run_own_ok: "own_ok (run X ops)"
  unfolding run_def by (rule fold_own_ok) (rule own_ok_init)

subsection \<open>The name catalog in every reachable world\<close>

lemma sub_matcher_refl: "sub_matcher a a"
  by (simp add: sub_matcher_def)

lemma sub_matcher_trans: "sub_matcher a b \<Longrightarrow> sub_matcher b c \<Longrightarrow> sub_matcher a c"
  unfolding sub_matcher_def by blast

lemma sub_matcher_new: "sub_matcher SeriesMatcher_new b"
  by (simp add: sub_matcher_def SeriesMatcher_new_def)

lemma catalog_ok_new: "catalog_ok SeriesMatcher_new"
  by (simp add: catalog_ok_def SeriesMatcher_new_def)

lemma catalog_ok_pos: "catalog_ok m \<Longrightarrow> sm_table m n = Some i \<Longrightarrow> 0 < i"
  unfolding catalog_ok_def by blast

lemma match_eq_0: "catalog_ok m \<Longrightarrow> SeriesMatcher_match m n = 0 \<longleftrightarrow> sm_table m n = None"
proof (cases "sm_table m n")
  case None
  then show ?thesis by (simp add: SeriesMatcher_match_def)
next
  case (Some i)
  assume "catalog_ok m"
  then have "0 < i" using Some by (rule catalog_ok_pos)
  then show ?thesis using Some by (simp add: SeriesMatcher_match_def)
qed

lemma match_Some: "sm_table m n = Some i \<Longrightarrow> SeriesMatcher_match m n = i"
  by (simp add: SeriesMatcher_match_def)

lemma catalog_ok_add:
  assumes "catalog_ok m" "sm_table m n = None"
  shows "catalog_ok (snd (SeriesMatcher_add m n))"
    and "sub_matcher m (snd (SeriesMatcher_add m n))"
    and "sm_table (snd (SeriesMatcher_add m n)) n = Some (sm_series_id m)"
    and "fst (SeriesMatcher_add m n) = sm_series_id m"
proof -
  let ?sid = "sm_series_id m"
  let ?tb = "(sm_table m)(n \<mapsto> ?sid)"
  let ?iv = "(sm_inv_table m)(?sid \<mapsto> n)"
  have lt: "\<And>n' i. sm_table m n' = Some i \<Longrightarrow> 0 < i \<and> i < ?sid \<and> sm_inv_table m i = Some n'"
    and inv: "\<And>i n'. sm_inv_table m i = Some n' \<Longrightarrow> sm_table m n' = Some i"
    and pos: "0 < ?sid"
    using assms(1) unfolding catalog_ok_def by blast+
  have fresh: "sm_inv_table m ?sid = None"
  proof (cases "sm_inv_table m ?sid")
    case (Some n')
    then have "sm_table m n' = Some ?sid" by (rule inv)
    then have "?sid < ?sid" using lt by blast
    then show ?thesis by simp
  qed simp
  have f: "sm_table (snd (SeriesMatcher_add m n)) = ?tb"
    "sm_inv_table (snd (SeriesMatcher_add m n)) = ?iv"
    "sm_series_id (snd (SeriesMatcher_add m n)) = Suc ?sid"
    by (simp_all add: SeriesMatcher_add_def Let_def)
  have A: "0 < i \<and> i < Suc ?sid \<and> ?iv i = Some n'" if a: "?tb n' = Some i" for n' i
  proof (cases "n' = n")
    case True
    then have "i = ?sid" using a by simp
    then show ?thesis using pos True by simp
  next
    case False
    then have "sm_table m n' = Some i" using a by simp
    from lt[OF this] show ?thesis by simp
  qed
  have B: "?tb n' = Some i" if a: "?iv i = Some n'" for n' i
  proof (cases "i = ?sid")
    case True
    then have "n' = n" using a by simp
    then show ?thesis using True by simp
  next
    case False
    then have "sm_inv_table m i = Some n'" using a by simp
    then have t: "sm_table m n' = Some i" by (rule inv)
    then have "n' \<noteq> n" using assms(2) by auto
    then show ?thesis using t by simp
  qed
  show "catalog_ok (snd (SeriesMatcher_add m n))"
    unfolding catalog_ok_def f using A B by blast
  show "sub_matcher m (snd (SeriesMatcher_add m n))"
    unfolding sub_matcher_def f
  proof (intro conjI allI impI)
    fix n' i assume "sm_table m n' = Some i"
    then show "?tb n' = Some i" using assms(2) by auto
  next
    fix i n' assume "sm_inv_table m i = Some n'"
    then show "?iv i = Some n'" using fresh by auto
  qed
  show "sm_table (snd (SeriesMatcher_add m n)) n = Some ?sid"
    unfolding f by simp
  show "fst (SeriesMatcher_add m n) = ?sid"
    by (simp add: SeriesMatcher_add_def Let_def)
qed

lemma sub_matcher_add_pair:
  "sub_matcher lm gm \<Longrightarrow> sm_table gm n = Some i \<Longrightarrow> sm_inv_table gm i = Some n \<Longrightarrow>
   sub_matcher (SeriesMatcher_add_pair lm n i) gm"
  unfolding sub_matcher_def SeriesMatcher_add_pair_def
  by (simp split: if_splits)

lemma locals_of_upd [simp]: "locals_of (ss(k \<mapsto> s)) = (locals_of ss)(k \<mapsto> local_matcher s)"
  by (rule ext) (simp add: locals_of_def)

lemma locals_of_del [simp]: "locals_of (ss(k := None)) = (locals_of ss)(k := None)"
  by (rule ext) (simp add: locals_of_def)

lemma locals_of_same:
  "ss k = Some s \<Longrightarrow> local_matcher s' = local_matcher s \<Longrightarrow>
   (locals_of ss)(k \<mapsto> local_matcher s') = locals_of ss"
  by (rule ext) (simp add: locals_of_def)

lemma names_step_frame:
  assumes "names_ok w" "registry w = Some r" "registry w' = Some r'"
    "global_matcher r' = global_matcher r" "locals_of (sessions w') = locals_of (sessions w)"
  shows "names_step w w'"
  using assms by (simp add: names_step_def names_ok_def sub_matcher_refl)

lemma names_ok_registry: "names_ok w \<Longrightarrow> \<exists>r. registry w = Some r"
  by (cases "registry w") (simp_all add: names_ok_def)

lemma names_step_refl: "names_ok w \<Longrightarrow> names_step w w"
  by (auto simp: names_step_def sub_matcher_refl)

lemma names_invD:
  assumes "names_inv gm lms"
  shows "catalog_ok gm" "\<And>k lm. lms k = Some lm \<Longrightarrow> sub_matcher lm gm"
  using assms unfolding names_inv_def by blast+

lemma names_inv_upd:
  "names_inv gm lms \<Longrightarrow> sub_matcher lm gm \<Longrightarrow> names_inv gm (lms(k \<mapsto> lm))"
  unfolding names_inv_def by simp

lemma names_inv_del: "names_inv gm lms \<Longrightarrow> names_inv gm (lms(k := None))"
  unfolding names_inv_def by simp

lemma names_inv_grow:
  "names_inv gm lms \<Longrightarrow> catalog_ok gm' \<Longrightarrow> sub_matcher gm gm' \<Longrightarrow> names_inv gm' lms"
  unfolding names_inv_def by (blast intro: sub_matcher_trans)

lemma names_create:
  assumes "names_ok w"
  shows "names_step w (exec X (CreateSession k) w)"
proof -
  obtain r where r: "registry w = Some r" using names_ok_registry[OF assms] by blast
  have inv: "names_inv (global_matcher r) (locals_of (sessions w))"
    using assms r by (simp add: names_ok_def)
  show ?thesis
  proof (cases "sessions w k = None")
    case False
    then show ?thesis using r names_step_refl[OF assms] by auto
  next
    case True
    have "names_inv (global_matcher r) ((locals_of (sessions w))(k \<mapsto> SeriesMatcher_new))"
      by (rule names_inv_upd[OF inv sub_matcher_new])
    then show ?thesis using r True
      by (simp add: names_step_def names_ok_def TreeRegistry_create_session_def
            IngestionSession_new_def sub_matcher_refl)
  qed
qed

lemma names_close:
  assumes "names_ok w"
  shows "names_step w (exec X (Close k) w)"
proof -
  obtain r where r: "registry w = Some r" using names_ok_registry[OF assms] by blast
  show ?thesis
  proof (cases "sessions w k")
    case None
    then show ?thesis using names_step_refl[OF assms] by simp
  next
    case (Some s)
    show ?thesis
      using Some r
      by (auto intro!: names_step_frame[OF assms r]
            simp: IngestionSession_close_def TreeRegistry_remove_dispatcher_def)
  qed
qed

lemma names_delete:
  assumes "names_ok w"
  shows "names_step w (exec X (DeleteSession k) w)"
proof -
  obtain r where r: "registry w = Some r" using names_ok_registry[OF assms] by blast
  have inv: "names_inv (global_matcher r) (locals_of (sessions w))"
    using assms r by (simp add: names_ok_def)
  show ?thesis
  proof (cases "sessions w k")
    case None
    then show ?thesis using names_step_refl[OF assms] by simp
  next
    case (Some s)
    show ?thesis
      using Some r names_inv_del[OF inv, of k]
      by (simp add: names_step_def names_ok_def session_deleter_def IngestionSession_close_def
            IngestionSession_destroy_def TreeRegistry_remove_dispatcher_def Let_def
            sub_matcher_refl)
  qed
qed

lemma names_receive:
  assumes "names_ok w"
  shows "names_step w (exec X (ReceiveBroadcast k sample) w)"
proof -
  obtain r where r: "registry w = Some r" using names_ok_registry[OF assms] by blast
  show ?thesis
  proof (cases "sessions w k")
    case None
    then show ?thesis using names_step_refl[OF assms] by simp
  next
    case (Some s)
    obtain f where "snd (IngestionSession_receive_broadcast X s sample w) = w\<lparr>heap := f\<rparr>"
      using receive_broadcast_frame by blast
    then show ?thesis using Some r
      by (auto intro!: names_step_frame[OF assms r])
  qed
qed

lemma names_try_acquire:
  assumes "names_ok w"
  shows "names_step w (exec X (TryAcquire i) w)"
proof -
  obtain r where r: "registry w = Some r" using names_ok_registry[OF assms] by blast
  show ?thesis
    using r
    by (auto intro!: names_step_frame[OF assms r]
          simp: TreeRegistry_try_acquire_def RegistryEntry_try_acquire_def
          split: option.splits)
qed

lemma names_drop:
  assumes "names_ok w"
  shows "names_step w (exec X (DropHandle h) w)"
proof -
  obtain r where r: "registry w = Some r" using names_ok_registry[OF assms] by blast
  show ?thesis
    using r names_step_refl[OF assms]
    by (auto intro!: names_step_frame[OF assms r] simp: release_def)
qed

lemma TreeRegistry_init_known:
  assumes "sm_table (global_matcher r) n = Some i" "i \<noteq> 0"
  shows "TreeRegistry_init_series_id X n lm r w =
           (AKU_SUCCESS, i, SeriesMatcher_add_pair lm n i, r, w)"
  using assms by (simp add: TreeRegistry_init_series_id_def SeriesMatcher_match_def)

lemma TreeRegistry_init_names:
  assumes "catalog_ok (global_matcher r)"
    and "TreeRegistry_init_series_id X n lm r w = (st, i, lm1, r1, w1)"
  shows "st = AKU_SUCCESS" "catalog_ok (global_matcher r1)"
    "sub_matcher (global_matcher r) (global_matcher r1)"
    "sm_table (global_matcher r1) n = Some i" "i \<noteq> 0"
    "lm1 = SeriesMatcher_add_pair lm n i" "sessions w1 = sessions w"
proof -
  have all: "st = AKU_SUCCESS \<and> catalog_ok (global_matcher r1) \<and>
    sub_matcher (global_matcher r) (global_matcher r1) \<and>
    sm_table (global_matcher r1) n = Some i \<and> i \<noteq> 0 \<and>
    lm1 = SeriesMatcher_add_pair lm n i \<and> sessions w1 = sessions w"
  proof (cases "sm_table (global_matcher r) n")
    case (Some i0)
    have p: "0 < i0" using assms(1) Some by (rule catalog_ok_pos)
    then have "TreeRegistry_init_series_id X n lm r w =
                 (AKU_SUCCESS, i0, SeriesMatcher_add_pair lm n i0, r, w)"
      using Some by (intro TreeRegistry_init_known) simp_all
    then show ?thesis using assms Some p by (simp add: sub_matcher_refl)
  next
    case None
    note A = catalog_ok_add[OF assms(1) None]
    have m: "SeriesMatcher_match (global_matcher r) n = 0"
      using None by (simp add: SeriesMatcher_match_def)
    have pos: "0 < sm_series_id (global_matcher r)"
      using assms(1) unfolding catalog_ok_def by blast
    have e: "global_matcher r1 = snd (SeriesMatcher_add (global_matcher r) n)"
        "i = fst (SeriesMatcher_add (global_matcher r) n)"
        "st = AKU_SUCCESS" "lm1 = SeriesMatcher_add_pair lm n i" "sessions w1 = sessions w"
      using assms(2) m
      by (auto simp: TreeRegistry_init_series_id_def Let_def split_def)
    show ?thesis using A e pos by simp
  qed
  from all show "st = AKU_SUCCESS" "catalog_ok (global_matcher r1)"
    "sub_matcher (global_matcher r) (global_matcher r1)"
    "sm_table (global_matcher r1) n = Some i" "i \<noteq> 0"
    "lm1 = SeriesMatcher_add_pair lm n i" "sessions w1 = sessions w"
    by blast+
qed

lemma catalog_inv_Some: "catalog_ok m \<Longrightarrow> sm_table m n = Some i \<Longrightarrow> sm_inv_table m i = Some n"
  unfolding catalog_ok_def by blast

lemma names_init_series:
  assumes "names_ok w"
  shows "names_step w (exec X (InitSeriesId k raw) w)"
proof -
  obtain r where r: "registry w = Some r" using names_ok_registry[OF assms] by blast
  have inv: "names_inv (global_matcher r) (locals_of (sessions w))"
    using assms r by (simp add: names_ok_def)
  note I = names_invD[OF inv]
  show ?thesis
  proof (cases "sessions w k")
    case None
    then show ?thesis using names_step_refl[OF assms] by simp
  next
    case (Some s)
    have ls: "locals_of (sessions w) k = Some (local_matcher s)"
      using Some by (simp add: locals_of_def)
    obtain status name where nf: "to_normal_form X raw = (status, name)"
      by (cases "to_normal_form X raw")
    obtain st i lm1 r1 w1 where ti:
      "TreeRegistry_init_series_id X name (local_matcher s) r w = (st, i, lm1, r1, w1)"
      by (metis prod.exhaust)
    note T = TreeRegistry_init_names[OF I(1) ti]
    have same: "names_step w (w\<lparr>sessions := (sessions w)(k \<mapsto> s)\<rparr>)"
      using Some r by (auto intro!: names_step_frame[OF assms r] simp: locals_of_same)
    have "sub_matcher (local_matcher s) (global_matcher r1)"
      using I(2)[OF ls] T(3) by (rule sub_matcher_trans)
    then have "sub_matcher lm1 (global_matcher r1)"
      unfolding T(6) using T(4) catalog_inv_Some[OF T(2) T(4)]
      by (rule sub_matcher_add_pair)
    then have "names_inv (global_matcher r1) ((locals_of (sessions w))(k \<mapsto> lm1))"
      using names_inv_grow[OF inv T(2) T(3)] by (intro names_inv_upd)
    then have new: "names_step w (w1\<lparr>registry := Some r1,
                      sessions := (sessions w1)(k \<mapsto> s\<lparr>local_matcher := lm1\<rparr>)\<rparr>)"
      using r T(3) T(7) by (simp add: names_step_def names_ok_def)
    show ?thesis
      using Some r nf ti same new
      by (simp add: IngestionSession_init_series_id_def Let_def)
  qed
qed

lemma write_append_frame:
  assumes "write_append X k s sample it w = Inr (st, ar, s1, w1)"
  shows "local_matcher s1 = local_matcher s \<and> sessions w1 = sessions w \<and>
         registry w1 = registry w"
proof (cases it)
  case (Some h)
  then show ?thesis using assms
    by (auto simp: write_append_def Let_def split: prod.splits)
next
  case None
  show ?thesis
  proof (cases "registry w")
    case N: None
    then show ?thesis using assms None by (auto simp: write_append_def Let_def)
  next
    case (Some reg)
    obtain f where f: "snd (broadcast_loop X (active reg) sample k w) = w\<lparr>heap := f\<rparr>"
      using broadcast_loop_frame by blast
    show ?thesis
      using assms None Some f
      by (auto simp: write_append_def Let_def TreeRegistry_try_acquire_def
            RegistryEntry_try_acquire_def TreeRegistry_broadcast_sample_def
            split: prod.splits option.splits if_splits)
  qed
qed

lemma names_write:
  assumes "names_ok w"
  shows "names_step w (exec X (Write k sample) w)"
proof -
  obtain r where r: "registry w = Some r" using names_ok_registry[OF assms] by blast
  show ?thesis
  proof (cases "sessions w k")
    case None
    then show ?thesis using names_step_refl[OF assms] by simp
  next
    case (Some s)
    obtain res s' w' where wr: "IngestionSession_write X k s sample w = (res, s', w')"
      by (metis prod.exhaust)
    have fr: "local_matcher s' = local_matcher s \<and> sessions w' = sessions w \<and>
              (\<exists>r'. registry w' = Some r' \<and> global_matcher r' = global_matcher r)"
    proof (cases "ptype (payload sample) = AKU_PAYLOAD_FLOAT")
      case False
      then show ?thesis using wr r by (simp add: IngestionSession_write_def)
    next
      case True
      note S = write_result_shape[OF wr True]
      show ?thesis
      proof (cases "write_append X k s sample (map_of (cache s) (paramid sample)) w")
        case (Inl f)
        then show ?thesis using S r by simp
      next
        case (Inr t)
        obtain st ar s1 w1 where t: "t = (st, ar, s1, w1)" by (metis prod.exhaust)
        note F = write_append_frame[OF Inr[unfolded t]]
        show ?thesis using S Inr t F r
          by (auto simp: TreeRegistry_update_rescue_points_def)
      qed
    qed
    then obtain r' where r': "registry w' = Some r'" "global_matcher r' = global_matcher r"
      by blast
    have "names_step w (w'\<lparr>sessions := (sessions w')(k \<mapsto> s')\<rparr>)"
      using fr r' Some
      by (auto intro!: names_step_frame[OF assms r] simp: locals_of_same)
    then show ?thesis using Some wr by simp
  qed
qed

lemma exec_names: "names_ok w \<Longrightarrow> names_step w (exec X op w)"
  by (cases op)
     (simp_all only: names_create names_close names_delete names_init_series
        names_write names_receive names_try_acquire names_drop)

lemma names_step_trans: "names_step a b \<Longrightarrow> names_step b c \<Longrightarrow> names_step a c"
  unfolding names_step_def by (blast intro: sub_matcher_trans)

lemma fold_names: "names_ok w \<Longrightarrow> names_step w (fold (exec X) ops w)"
proof (induction ops arbitrary: w)
  case Nil
  then show ?case by (simp add: names_step_refl)
next
  case (Cons op ops)
  have a: "names_step w (exec X op w)" using Cons.prems by (rule exec_names)
  then have "names_ok (exec X op w)" by (simp add: names_step_def)
  then have "names_step (exec X op w) (fold (exec X) ops (exec X op w))" by (rule Cons.IH)
  with a show ?case by (simp add: names_step_trans)
qed

lemma names_ok_init: "names_ok (init_world X)"
  by (simp add: names_ok_def init_world_def TreeRegistry_new_def names_inv_def catalog_ok_new
        locals_of_def)

lemma run_names_ok: "names_ok (run X ops)"
  using fold_names[OF names_ok_init, where X = X and ops = ops]
  by (simp add: run_def names_step_def)

subsection \<open>One writer per series\<close>

lemma owns_holds: "owns w k i = holds (caches_of (sessions w)) k i"
  by (simp add: owns_def holds_def caches_of_def split: option.splits)

lemma run_own_inv:
  assumes "registry (run X ops) = Some r"
  shows "own_inv (table r) (sm_series_id (global_matcher r)) (caches_of (sessions (run X ops)))
           (external (run X ops)) (use_count (run X ops))"
  using run_own_ok[of X ops] assms by (simp add: own_ok_def)

text \<open>
  C4. In every world reached by any sequence of \<open>create_session\<close>, \<open>close\<close>, session
  deletion, \<open>init_series_id\<close>, \<open>write\<close>, \<open>_receive_broadcast\<close>, direct \<open>try_acquire\<close> and
  handle drops, by any number of sessions, no series id is in the \<open>cache\<close> of two sessions;
  and \<open>RegistryEntry::try_acquire\<close> on the entry of id \<open>i\<close> returns at once, with
  \<open>(AKU_SUCCESS, handle)\<close> and one more strong reference exactly when neither a session
  nor an outside caller holds the handle, and with \<open>(AKU_EBUSY, none)\<close> and an unchanged
  world otherwise.
\<close>

theorem single_writer:
  "(owns (run X ops) k1 i \<and> owns (run X ops) k2 i \<longrightarrow> k1 = k2) \<and>
   (\<forall>r e. registry (run X ops) = Some r \<and> table r i = Some e \<longrightarrow>
      RegistryEntry_try_acquire e (run X ops) =
        (if (\<exists>k. owns (run X ops) k i) \<or> i \<in> set (external (run X ops))
         then ((AKU_EBUSY, None), run X ops)
         else ((AKU_SUCCESS, Some (roots e)),
               (run X ops)\<lparr>use_count :=
                 (use_count (run X ops))(roots e := use_count (run X ops) (roots e) + 1)\<rparr>)))"
proof -
  let ?w = "run X ops"
  obtain r where r: "registry ?w = Some r"
    using own_ok_registry[OF run_own_ok[of X ops]] by blast
  note D = own_invD[OF run_own_inv[OF r]]
  have a: "owns ?w k1 i \<and> owns ?w k2 i \<longrightarrow> k1 = k2"
    unfolding owns_holds using D(4) by blast
  have b: "RegistryEntry_try_acquire e ?w =
        (if (\<exists>k. owns ?w k i) \<or> i \<in> set (external ?w)
         then ((AKU_EBUSY, None), ?w)
         else ((AKU_SUCCESS, Some (roots e)),
               ?w\<lparr>use_count := (use_count ?w)(roots e := use_count ?w (roots e) + 1)\<rparr>))"
    if t: "table r i = Some e" for e
  proof -
    have re: "roots e = i" using D(1)[OF t] by simp
    have u: "use_count ?w i = (if holder (caches_of (sessions ?w)) i \<or> i \<in> set (external ?w)
                                then 2 else 1)"
      using D(7)[of i] t by simp
    have h: "holder (caches_of (sessions ?w)) i = (\<exists>k. owns ?w k i)"
      by (simp add: holder_def owns_holds)
    show ?thesis
      unfolding RegistryEntry_try_acquire_def re u h by simp
  qed
  show ?thesis using a b r by auto
qed

theorem single_writer_witness:
  "owns owned_world 1 1 \<and> \<not> owns owned_world 2 1 \<and>
   RegistryEntry_try_acquire \<lparr>roots = 1\<rparr> owned_world = ((AKU_EBUSY, None), owned_world)"
proof -
  let ?ops = "[CreateSession 1, CreateSession 2, InitSeriesId 1 ''m x=1'',
               InitSeriesId 2 ''m x=1'', Write 1 (float_sample 1 50 7)]"
  note T = single_writer [where X = double and ops = ?ops and i = 1 and ?k1.0 = 1 and ?k2.0 = 2,
                          folded owned_world_def]
  have o: "owns owned_world 1 1" by (simp add: model_defs)
  obtain reg where r: "registry owned_world = Some reg" by (simp add: model_defs)
  have t: "table reg 1 = Some \<lparr>roots = 1\<rparr>" using r by (auto simp: model_defs)
  have n: "\<not> owns owned_world 2 1" using T o by auto
  have "RegistryEntry_try_acquire \<lparr>roots = 1\<rparr> owned_world =
          (if (\<exists>k. owns owned_world k 1) \<or> 1 \<in> set (external owned_world)
           then ((AKU_EBUSY, None), owned_world)
           else ((AKU_SUCCESS, Some (roots \<lparr>roots = 1\<rparr>)),
                 owned_world\<lparr>use_count := (use_count owned_world)
                   (roots \<lparr>roots = 1\<rparr> := use_count owned_world (roots \<lparr>roots = 1\<rparr>) + 1)\<rparr>))"
    using T r t by blast
  moreover have "\<exists>k. owns owned_world k 1" using o by blast
  ultimately show ?thesis using o n by simp
qed

subsection \<open>Broadcast to the owner\<close>

lemma receive_broadcast_miss:
  "map_of (cache s) (paramid sample) = None \<Longrightarrow>
   IngestionSession_receive_broadcast X s sample w = ((False, OK), w)"
  by (simp add: IngestionSession_receive_broadcast_def)

lemma receive_broadcast_hit:
  "map_of (cache s) (paramid sample) = Some h \<Longrightarrow>
   extl_append X (heap w h) (timestamp sample) (float64 (payload sample)) = (outcome, t) \<Longrightarrow>
   IngestionSession_receive_broadcast X s sample w =
     ((True, outcome), w\<lparr>heap := (heap w)(h := t)\<rparr>)"
  by (simp add: IngestionSession_receive_broadcast_def)

lemma broadcast_loop_owner:
  assumes "b \<in> set ks" "sessions w b = Some sb" "map_of (cache sb) (paramid sample) = Some h"
    and "b \<noteq> source"
    and "extl_append X (heap w h) (timestamp sample) (float64 (payload sample)) = (outcome, t)"
    and "\<forall>k\<in>set ks. k \<noteq> b \<longrightarrow>
           (case sessions w k of None \<Rightarrow> True
            | Some s \<Rightarrow> map_of (cache s) (paramid sample) = None)"
  shows "broadcast_loop X ks sample source w = (outcome, w\<lparr>heap := (heap w)(h := t)\<rparr>)"
  using assms(1,6)
proof (induction ks)
  case Nil
  then show ?case by simp
next
  case (Cons k ks)
  show ?case
  proof (cases "k = b")
    case True
    then show ?thesis
      using assms(2,4) receive_broadcast_hit[OF assms(3,5)] by (simp add: fun_upd_def)
  next
    case False
    then have b: "b \<in> set ks" using Cons.prems(1) by simp
    have rest: "\<forall>k\<in>set ks. k \<noteq> b \<longrightarrow>
           (case sessions w k of None \<Rightarrow> True
            | Some s \<Rightarrow> map_of (cache s) (paramid sample) = None)"
      using Cons.prems(2) by simp
    note IH = Cons.IH[OF b rest]
    show ?thesis
    proof (cases "sessions w k")
      case None
      then show ?thesis using IH by simp
    next
      case (Some s)
      then have "map_of (cache s) (paramid sample) = None"
        using Cons.prems(2) False by auto
      then show ?thesis using Some IH by (simp add: receive_broadcast_miss)
    qed
  qed
qed

text \<open>
  C6, as amended. In a reachable world, let session \<open>b\<close> have the sample's id in its
  \<open>cache\<close> and still be registered in the registry's \<open>active\<close> map (\<open>close\<close> has not been
  called on it), and let another live session \<open>a\<close> write a float sample for that id.
  Then \<open>try_acquire\<close> answers \<open>AKU_EBUSY\<close>, \<open>_receive_broadcast\<close> of \<open>b\<close> appends to
  \<open>b\<close>'s extent list and reports \<open>(true, outcome)\<close>, \<open>broadcast_sample\<close> returns that
  outcome with the world changed by exactly that append, and \<open>a\<close>'s session, so its
  \<open>cache\<close>, is unchanged by the write.
\<close>

theorem broadcast_reaches_owner:
  assumes "w = run X ops" "registry w = Some reg"
    and "sessions w b = Some sb" "map_of (cache sb) (paramid sample) = Some h"
    and "b \<in> set (active reg)"
    and "sessions w a = Some sa" "a \<noteq> b"
    and "ptype (payload sample) = AKU_PAYLOAD_FLOAT"
    and "extl_append X (heap w h) (timestamp sample) (float64 (payload sample)) = (outcome, t)"
  shows "TreeRegistry_try_acquire (paramid sample) reg w = ((AKU_EBUSY, None), w) \<and>
         IngestionSession_receive_broadcast X sb sample w =
           ((True, outcome), w\<lparr>heap := (heap w)(h := t)\<rparr>) \<and>
         TreeRegistry_broadcast_sample X reg sample a w =
           (outcome, w\<lparr>heap := (heap w)(h := t)\<rparr>) \<and>
         snd (IngestionSession_write X a sa sample w) = (sa, w\<lparr>heap := (heap w)(h := t)\<rparr>) \<and>
         map_of (cache sa) (paramid sample) = None"
proof -
  let ?i = "paramid sample"
  let ?cm = "caches_of (sessions w)"
  have inv: "own_inv (table reg) (sm_series_id (global_matcher reg)) ?cm (external w) (use_count w)"
    using run_own_inv[of X ops reg] assms(1,2) by simp
  note D = own_invD[OF inv]
  have hb: "holds ?cm b ?i"
    using assms(3,4) by (simp add: holds_def caches_of_def)
  have others: "map_of (cache s) ?i = None" if "sessions w k = Some s" "k \<noteq> b" for k s
  proof (cases "map_of (cache s) ?i")
    case (Some h')
    then have "holds ?cm k ?i" using that(1) by (simp add: holds_def caches_of_def)
    then have "k = b" using hb D(4) by blast
    then show ?thesis using that(2) by simp
  qed simp
  have miss: "map_of (cache sa) ?i = None"
    using others[OF assms(6,7)] .
  obtain e where e: "table reg ?i = Some e"
    using holds_tb[OF D(2) hb] by auto
  have re: "roots e = ?i" using D(1)[OF e] by simp
  have "holder ?cm ?i" using hb by (auto simp: holder_def)
  then have u: "use_count w ?i = 2" using D(7)[of ?i] e by simp
  have ta: "TreeRegistry_try_acquire ?i reg w = ((AKU_EBUSY, None), w)"
    using e re u by (simp add: TreeRegistry_try_acquire_def RegistryEntry_try_acquire_def)
  have rb: "IngestionSession_receive_broadcast X sb sample w =
              ((True, outcome), w\<lparr>heap := (heap w)(h := t)\<rparr>)"
    using assms(4,9) by (rule receive_broadcast_hit)
  have "\<forall>k\<in>set (active reg). k \<noteq> b \<longrightarrow>
           (case sessions w k of None \<Rightarrow> True
            | Some s \<Rightarrow> map_of (cache s) ?i = None)"
    using others by (auto split: option.splits)
  then have bs: "TreeRegistry_broadcast_sample X reg sample a w =
                   (outcome, w\<lparr>heap := (heap w)(h := t)\<rparr>)"
    unfolding TreeRegistry_broadcast_sample_def
    using assms(3,4,5,7,9) by (intro broadcast_loop_owner) auto
  have wa: "write_append X a sa sample None w =
              Inr (AKU_SUCCESS, outcome, sa, w\<lparr>heap := (heap w)(h := t)\<rparr>)"
    using assms(2) ta bs by (simp add: write_append_def)
  have wr: "snd (IngestionSession_write X a sa sample w) = (sa, w\<lparr>heap := (heap w)(h := t)\<rparr>)"
    using assms(8) miss wa
    by (cases outcome) (simp_all add: IngestionSession_write_def)
  show ?thesis using ta rb bs wr miss by simp
qed

theorem broadcast_reaches_owner_witness:
  "owns owned_world 1 1 \<and>
   fst (TreeRegistry_broadcast_sample double (the (registry owned_world)) (float_sample 1 60 8) 2
          owned_world) = OK \<and>
   heap (snd (snd (IngestionSession_write double 2
           \<lparr>local_matcher = SeriesMatcher_add_pair SeriesMatcher_new ''m x=1'' 1, cache = []\<rparr>
           (float_sample 1 60 8) owned_world))) 1 = [(50, 7), (60, 8)] \<and>
   cache (fst (snd (IngestionSession_write double 2
           \<lparr>local_matcher = SeriesMatcher_add_pair SeriesMatcher_new ''m x=1'' 1, cache = []\<rparr>
           (float_sample 1 60 8) owned_world))) = []"
proof -
  let ?sa = "\<lparr>local_matcher = SeriesMatcher_add_pair SeriesMatcher_new ''m x=1'' 1, cache = []\<rparr>"
  let ?sb = "\<lparr>local_matcher = SeriesMatcher_add_pair SeriesMatcher_new ''m x=1'' 1, cache = [(1, 1)]\<rparr>"
  obtain reg where r: "registry owned_world = Some reg"
    by (simp add: model_defs)
  have a: "active reg = [1, 2]"
    using r by (auto simp: model_defs)
  have sb: "sessions owned_world 1 = Some ?sb" by (simp add: model_defs)
  have sa: "sessions owned_world 2 = Some ?sa" by (simp add: model_defs)
  have hp: "heap owned_world 1 = [(50, 7)]" by (simp add: model_defs)
  have ap: "extl_append double (heap owned_world 1) (timestamp (float_sample 1 60 8))
              (float64 (payload (float_sample 1 60 8))) = (OK, [(50, 7), (60, 8)])"
    unfolding hp by (simp add: double_def double_append_def float_sample_def)
  note T = broadcast_reaches_owner
             [of owned_world double
                 "[CreateSession 1, CreateSession 2, InitSeriesId 1 ''m x=1'',
                   InitSeriesId 2 ''m x=1'', Write 1 (float_sample 1 50 7)]"
                 reg 1 ?sb "float_sample 1 60 8" 1 2 ?sa OK "[(50, 7), (60, 8)]"]
  have "TreeRegistry_broadcast_sample double reg (float_sample 1 60 8) 2 owned_world =
          (OK, owned_world\<lparr>heap := (heap owned_world)(1 := [(50, 7), (60, 8)])\<rparr>) \<and>
        snd (IngestionSession_write double 2 ?sa (float_sample 1 60 8) owned_world) =
          (?sa, owned_world\<lparr>heap := (heap owned_world)(1 := [(50, 7), (60, 8)])\<rparr>)"
    using T r a sb sa ap by (simp add: owned_world_def float_sample_def)
  moreover have "owns owned_world 1 1" using sb by (simp add: owns_def)
  ultimately show ?thesis using r by simp
qed

text \<open>
  The claim as stated fails when the owner has been closed but not deleted: \<open>close\<close> only
  removes the session from \<open>active\<close>, its \<open>cache\<close> keeps the handle. Session 1 owns
  series 1 and has been closed; session 2 writes to series 1: nobody receives the sample,
  the extent list is unchanged and the write returns \<open>AKU_ENOT_FOUND\<close>.
\<close>

theorem closed_owner_not_reached:
  "owns closed_owner_world 1 1 \<and>
   call_write double 2 (float_sample 1 60 8) closed_owner_world = Some (Inr AKU_ENOT_FOUND) \<and>
   fst (TreeRegistry_broadcast_sample double (the (registry closed_owner_world))
          (float_sample 1 60 8) 2 closed_owner_world) = FAIL_BAD_ID \<and>
   heap (exec double (Write 2 (float_sample 1 60 8)) closed_owner_world) 1 =
     heap closed_owner_world 1"
  by (simp add: model_defs)

subsection \<open>Series names and ids\<close>

lemma catalog_ok_lt: "catalog_ok m \<Longrightarrow> sm_table m n = Some i \<Longrightarrow> i < sm_series_id m"
  unfolding catalog_ok_def by blast

lemma TreeRegistry_init_id:
  assumes "catalog_ok (global_matcher r)"
  shows "fst (snd (TreeRegistry_init_series_id X n lm r w)) =
           (case sm_table (global_matcher r) n of
              Some i \<Rightarrow> i | None \<Rightarrow> sm_series_id (global_matcher r))"
proof (cases "sm_table (global_matcher r) n")
  case None
  then show ?thesis
    by (simp add: TreeRegistry_init_series_id_def SeriesMatcher_match_def
          SeriesMatcher_add_def Let_def)
next
  case (Some i)
  then have "0 < i" using assms catalog_ok_pos by blast
  then show ?thesis using Some
    by (simp add: TreeRegistry_init_series_id_def SeriesMatcher_match_def)
qed

text \<open>
  C5. Take any reachable world and register the canonical name \<open>n\<close> with the registry:
  the call succeeds with a nonzero id \<open>i\<close>. After any further sequence of operations,
  \<open>init_series_id\<close> for \<open>n\<close> yields \<open>i\<close> again and changes neither the registry nor the
  world (no second entry), a name that is given the id \<open>i\<close> is \<open>n\<close>, a session's
  \<open>init_series_id\<close> for a raw name with normal form \<open>n\<close> returns \<open>i\<close> from any live
  session and leaves the registry as it is, and \<open>get_series_name\<close> for \<open>i\<close> writes \<open>n\<close>
  into a buffer that is large enough.
\<close>

theorem init_series_id_unique_stable:
  assumes "registry (run X ops) = Some r"
    and "TreeRegistry_init_series_id X n lm r (run X ops) = (st, i, lm1, r1, w1)"
    and "w2 = fold (exec X) ops2 (w1\<lparr>registry := Some r1\<rparr>)"
    and "registry w2 = Some r2"
  shows "st = AKU_SUCCESS \<and> i \<noteq> 0 \<and>
     TreeRegistry_init_series_id X n lm2 r2 w2 =
       (AKU_SUCCESS, i, SeriesMatcher_add_pair lm2 n i, r2, w2) \<and>
     (\<forall>n'. fst (snd (TreeRegistry_init_series_id X n' lm2 r2 w2)) = i \<longrightarrow> n' = n) \<and>
     (\<forall>k s raw. sessions w2 k = Some s \<and> to_normal_form X raw = (AKU_SUCCESS, n) \<longrightarrow>
        fst (IngestionSession_init_series_id X s raw w2) = AKU_SUCCESS \<and>
        fst (snd (IngestionSession_init_series_id X s raw w2)) = Some i \<and>
        registry (snd (snd (snd (IngestionSession_init_series_id X s raw w2)))) = Some r2) \<and>
     (unat buffer_size = length buffer \<and> buffer_size < 2 ^ 31 \<and> length n \<le> length buffer \<longrightarrow>
        fst (TreeRegistry_get_series_name i buffer buffer_size lm3 r2) =
          Inr (int (length n), n @ drop (length n) buffer))"
proof -
  let ?w = "run X ops"
  have inv: "names_inv (global_matcher r) (locals_of (sessions ?w))"
    using run_names_ok[of X ops] assms(1) by (simp add: names_ok_def)
  note T = TreeRegistry_init_names[OF names_invD(1)[OF inv] assms(2)]
  have "names_inv (global_matcher r1) (locals_of (sessions w1))"
    using names_inv_grow[OF inv T(2) T(3)] T(7) by simp
  then have ok1: "names_ok (w1\<lparr>registry := Some r1\<rparr>)"
    by (simp add: names_ok_def)
  have "names_step (w1\<lparr>registry := Some r1\<rparr>) w2"
    unfolding assms(3) using ok1 by (rule fold_names)
  then have ok2: "names_ok w2" and sub: "sub_matcher (global_matcher r1) (global_matcher r2)"
    using assms(4) by (auto simp: names_step_def)
  have inv2: "names_inv (global_matcher r2) (locals_of (sessions w2))"
    using ok2 assms(4) by (simp add: names_ok_def)
  note I2 = names_invD[OF inv2]
  have tn: "sm_table (global_matcher r2) n = Some i"
    using sub T(4) unfolding sub_matcher_def by blast
  have known: "\<And>lm w. TreeRegistry_init_series_id X n lm r2 w =
                 (AKU_SUCCESS, i, SeriesMatcher_add_pair lm n i, r2, w)"
    using tn T(5) by (rule TreeRegistry_init_known)
  have uniq: "n' = n" if "fst (snd (TreeRegistry_init_series_id X n' lm2 r2 w2)) = i" for n'
  proof (cases "sm_table (global_matcher r2) n'")
    case None
    then have "i = sm_series_id (global_matcher r2)"
      using that TreeRegistry_init_id[OF I2(1), of X n' lm2 w2] by simp
    then show ?thesis using catalog_ok_lt[OF I2(1) tn] by simp
  next
    case (Some i')
    then have "i' = i"
      using that TreeRegistry_init_id[OF I2(1), of X n' lm2 w2] by simp
    then have "sm_inv_table (global_matcher r2) i = Some n'"
      using catalog_inv_Some[OF I2(1) Some] by simp
    moreover have "sm_inv_table (global_matcher r2) i = Some n"
      using catalog_inv_Some[OF I2(1) tn] .
    ultimately show ?thesis by simp
  qed
  have sess: "fst (IngestionSession_init_series_id X s raw w2) = AKU_SUCCESS \<and>
        fst (snd (IngestionSession_init_series_id X s raw w2)) = Some i \<and>
        registry (snd (snd (snd (IngestionSession_init_series_id X s raw w2)))) = Some r2"
    if s: "sessions w2 k = Some s" and nf: "to_normal_form X raw = (AKU_SUCCESS, n)" for k s raw
  proof -
    have "locals_of (sessions w2) k = Some (local_matcher s)"
      using s by (simp add: locals_of_def)
    then have sl: "sub_matcher (local_matcher s) (global_matcher r2)" by (rule I2(2))
    show ?thesis
    proof (cases "sm_table (local_matcher s) n")
      case None
      then show ?thesis
        using nf assms(4) known
        by (simp add: IngestionSession_init_series_id_def SeriesMatcher_match_def)
    next
      case (Some i')
      then have "sm_table (global_matcher r2) n = Some i'"
        using sl unfolding sub_matcher_def by blast
      then have "i' = i" using tn by simp
      then show ?thesis
        using nf assms(4) Some T(5)
        by (simp add: IngestionSession_init_series_id_def SeriesMatcher_match_def)
    qed
  qed
  have name: "fst (TreeRegistry_get_series_name i buffer buffer_size lm3 r2) =
          Inr (int (length n), n @ drop (length n) buffer)"
    if "unat buffer_size = length buffer" "buffer_size < 2 ^ 31" "length n \<le> length buffer"
    using TreeRegistry_get_series_name_convention[OF that(1,2), of i lm3 r2]
      catalog_inv_Some[OF I2(1) tn] that(3)
    by (simp add: SeriesMatcher_id2str_def)
  show ?thesis
    using T(1) T(5) known[of lm2 w2] uniq sess name by blast
qed

theorem init_series_id_unique_stable_witness:
  "fst (snd (TreeRegistry_init_series_id double ''cpu'' SeriesMatcher_new
       (the (registry two_names_world)) two_names_world)) = 1 \<and>
   fst (snd (TreeRegistry_init_series_id double ''mem'' SeriesMatcher_new
       (the (registry two_names_world)) two_names_world)) = 2 \<and>
   fst (TreeRegistry_get_series_name 1 ''_____'' 5 SeriesMatcher_new
       (the (registry two_names_world))) = Inr (3, ''cpu__'')"
proof -
  let ?res = "TreeRegistry_init_series_id double ''cpu'' SeriesMatcher_new TreeRegistry_new
                (run double [])"
  let ?ops2 = "[CreateSession 2, InitSeriesId 2 ''mem'', InitSeriesId 2 ''cpu'']"
  have h1: "registry (run double []) = Some TreeRegistry_new"
    by (simp add: run_def init_world_def)
  have i1: "fst (snd ?res) = 1"
    by (simp add: model_defs)
  have h2: "?res = (fst ?res, 1, fst (snd (snd ?res)), fst (snd (snd (snd ?res))),
                    snd (snd (snd (snd ?res))))"
    unfolding i1[symmetric] by simp
  have h3: "two_names_world =
              fold (exec double) ?ops2
                ((snd (snd (snd (snd ?res))))\<lparr>registry := Some (fst (snd (snd (snd ?res))))\<rparr>)"
    by (simp add: two_names_world_def cpu_registered_def split_def)
  obtain r2 where r2: "registry two_names_world = Some r2"
    by (simp add: two_names_world_def cpu_registered_def model_defs)
  note T = init_series_id_unique_stable
             [OF h1 h2 h3 r2, of SeriesMatcher_new 5 "''_____''" SeriesMatcher_new]
  have a: "fst (snd (TreeRegistry_init_series_id double ''cpu'' SeriesMatcher_new r2
                 two_names_world)) = 1"
    using T by simp
  have c: "fst (TreeRegistry_get_series_name 1 ''_____'' 5 SeriesMatcher_new r2) =
             Inr (3, ''cpu__'')"
    using T by simp
  have b: "fst (snd (TreeRegistry_init_series_id double ''mem'' SeriesMatcher_new
       (the (registry two_names_world)) two_names_world)) = 2"
    by (simp add: two_names_world_def cpu_registered_def model_defs)
  show ?thesis using a b c r2 by simp
qed

subsection \<open>The rescue-point entry of a new series until the next sync\<close>

lemma buffered_as_registry:
  assumes "buffered_as w i v" "registry w = Some r" "registry w' = Some r'"
    "sm_series_id (global_matcher r') = sm_series_id (global_matcher r)"
    "rescue_points r' = rescue_points r"
  shows "buffered_as w' i v"
  using assms by (simp add: buffered_as_def)

lemma buffered_asD:
  assumes "buffered_as w i v"
  obtains r where "registry w = Some r" "i < sm_series_id (global_matcher r)"
    "map_of (rescue_points r) i = Some v"
  using assms by (cases "registry w") (auto simp: buffered_as_def)

lemma TreeRegistry_init_rescue:
  assumes "i < sm_series_id (global_matcher r)" "map_of (rescue_points r) i = Some v"
    and "TreeRegistry_init_series_id X name lm r w = (st, j, lm1, r1, w1)"
  shows "i < sm_series_id (global_matcher r1) \<and> map_of (rescue_points r1) i = Some v"
proof (cases "SeriesMatcher_match (global_matcher r) name = 0")
  case False
  then show ?thesis using assms by (simp add: TreeRegistry_init_series_id_def Let_def)
next
  case True
  have "r1 = r\<lparr>global_matcher := snd (SeriesMatcher_add (global_matcher r) name),
                table := (table r)(sm_series_id (global_matcher r) \<mapsto>
                           \<lparr>roots = sm_series_id (global_matcher r)\<rparr>),
                rescue_points := AList.update (sm_series_id (global_matcher r)) []
                                   (rescue_points r)\<rparr>"
    using assms(3) True
    by (auto simp: TreeRegistry_init_series_id_def SeriesMatcher_add_def Let_def)
  then show ?thesis using assms(1,2)
    by (simp add: SeriesMatcher_add_def Let_def update_conv')
qed

lemma exec_buffered_as:
  assumes "buffered_as w i v"
  shows "\<exists>v'. buffered_as (exec X x w) i v' \<and> (\<not> writes_to i x \<longrightarrow> v' = v)"
proof -
  from assms obtain r where r: "registry w = Some r"
    and lt: "i < sm_series_id (global_matcher r)"
    and m: "map_of (rescue_points r) i = Some v"
    by (rule buffered_asD)
  have keep: "buffered_as w' i v"
    if "registry w' = Some r'" "sm_series_id (global_matcher r') = sm_series_id (global_matcher r)"
       "rescue_points r' = rescue_points r" for w' :: "'a world" and r'
    using buffered_as_registry[OF assms r that] .
  show ?thesis
  proof (cases x)
    case (CreateSession k)
    have "buffered_as (exec X x w) i v"
      unfolding CreateSession using r assms
      by (auto intro!: keep simp: TreeRegistry_create_session_def)
    then show ?thesis by blast
  next
    case (Close k)
    have "buffered_as (exec X x w) i v"
      unfolding Close using r assms
      by (auto intro!: keep simp: IngestionSession_close_def TreeRegistry_remove_dispatcher_def
               split: option.splits)
    then show ?thesis by blast
  next
    case (DeleteSession k)
    have "buffered_as (exec X x w) i v"
      unfolding DeleteSession using r assms
      by (auto intro!: keep simp: session_deleter_def IngestionSession_close_def
            IngestionSession_destroy_def TreeRegistry_remove_dispatcher_def Let_def
               split: option.splits)
    then show ?thesis by blast
  next
    case (InitSeriesId k raw)
    have "buffered_as (exec X x w) i v"
    proof (cases "sessions w k")
      case None
      then show ?thesis unfolding InitSeriesId using assms by simp
    next
      case (Some s)
      obtain status name where nf: "to_normal_form X raw = (status, name)"
        by (cases "to_normal_form X raw")
      obtain st j lm1 r1 w1 where ti:
        "TreeRegistry_init_series_id X name (local_matcher s) r w = (st, j, lm1, r1, w1)"
        by (metis prod.exhaust)
      note T = TreeRegistry_init_rescue[OF lt m ti]
      have same: "buffered_as (w\<lparr>sessions := (sessions w)(k \<mapsto> s)\<rparr>) i v"
        using r by (auto intro!: keep)
      have new: "buffered_as (w1\<lparr>registry := Some r1,
                   sessions := (sessions w1)(k \<mapsto> s\<lparr>local_matcher := lm1\<rparr>)\<rparr>) i v"
        using T by (simp add: buffered_as_def)
      show ?thesis
        unfolding InitSeriesId using Some r nf ti same new
        by (simp add: IngestionSession_init_series_id_def Let_def)
    qed
    then show ?thesis by blast
  next
    case (Write k sample)
    show ?thesis
    proof (cases "sessions w k")
      case None
      then show ?thesis unfolding Write using assms by auto
    next
      case (Some s)
      obtain res s' w' where wr: "IngestionSession_write X k s sample w = (res, s', w')"
        by (metis prod.exhaust)
      have fr: "\<exists>r'. registry w' = Some r' \<and>
                  sm_series_id (global_matcher r') = sm_series_id (global_matcher r) \<and>
                  (rescue_points r' = rescue_points r \<or>
                   (\<exists>a. rescue_points r' = AList.update (paramid sample) a (rescue_points r)))"
      proof (cases "ptype (payload sample) = AKU_PAYLOAD_FLOAT")
        case False
        then show ?thesis using wr r by (simp add: IngestionSession_write_def)
      next
        case True
        note S = write_result_shape[OF wr True]
        show ?thesis
        proof (cases "write_append X k s sample (map_of (cache s) (paramid sample)) w")
          case (Inl f)
          then show ?thesis using S r by simp
        next
          case (Inr t)
          obtain st ar s1 w1 where t: "t = (st, ar, s1, w1)" by (metis prod.exhaust)
          note F = write_append_frame[OF Inr[unfolded t]]
          show ?thesis using S Inr t F r
            by (auto simp: TreeRegistry_update_rescue_points_def)
        qed
      qed
      then obtain r' where r': "registry w' = Some r'"
        "sm_series_id (global_matcher r') = sm_series_id (global_matcher r)"
        "rescue_points r' = rescue_points r \<or>
           (\<exists>a. rescue_points r' = AList.update (paramid sample) a (rescue_points r))"
        by blast
      have e: "exec X x w = w'\<lparr>sessions := (sessions w')(k \<mapsto> s')\<rparr>"
        unfolding Write using Some wr by simp
      from r'(3) show ?thesis
      proof
        assume "rescue_points r' = rescue_points r"
        then have "buffered_as (exec X x w) i v"
          unfolding e using r' by (auto intro!: keep)
        then show ?thesis by blast
      next
        assume "\<exists>a. rescue_points r' = AList.update (paramid sample) a (rescue_points r)"
        then obtain a where a: "rescue_points r' = AList.update (paramid sample) a (rescue_points r)"
          by blast
        show ?thesis
        proof (cases "paramid sample = i")
          case True
          then have "buffered_as (exec X x w) i a"
            unfolding e using r' a lt by (simp add: buffered_as_def update_conv')
          then show ?thesis using True by (auto simp: writes_to_def Write)
        next
          case False
          then have "buffered_as (exec X x w) i v"
            unfolding e using r' a lt m by (simp add: buffered_as_def update_conv')
          then show ?thesis by blast
        qed
      qed
    qed
  next
    case (ReceiveBroadcast k sample)
    have "buffered_as (exec X x w) i v"
    proof (cases "sessions w k")
      case None
      then show ?thesis unfolding ReceiveBroadcast using assms by simp
    next
      case (Some s)
      obtain f where "snd (IngestionSession_receive_broadcast X s sample w) = w\<lparr>heap := f\<rparr>"
        using receive_broadcast_frame by blast
      then show ?thesis unfolding ReceiveBroadcast using Some r by (auto intro!: keep)
    qed
    then show ?thesis by blast
  next
    case (TryAcquire j)
    have "buffered_as (exec X x w) i v"
      unfolding TryAcquire using r assms
      by (auto intro!: keep simp: TreeRegistry_try_acquire_def RegistryEntry_try_acquire_def
               split: option.splits)
    then show ?thesis by blast
  next
    case (DropHandle h)
    have "buffered_as (exec X x w) i v"
      unfolding DropHandle using r assms
      by (auto intro!: keep simp: release_def)
    then show ?thesis by blast
  qed
qed

lemma fold_buffered_as:
  assumes "buffered_as w i v"
  shows "\<exists>v'. buffered_as (fold (exec X) xs w) i v' \<and>
           ((\<forall>x\<in>set xs. \<not> writes_to i x) \<longrightarrow> v' = v)"
  using assms
proof (induction xs arbitrary: w v)
  case Nil
  then show ?case by auto
next
  case (Cons x xs)
  obtain v1 where v1: "buffered_as (exec X x w) i v1" "\<not> writes_to i x \<longrightarrow> v1 = v"
    using exec_buffered_as[OF Cons.prems] by blast
  obtain v2 where v2: "buffered_as (fold (exec X) xs (exec X x w)) i v2"
    "(\<forall>y\<in>set xs. \<not> writes_to i y) \<longrightarrow> v2 = v1"
    using Cons.IH[OF v1(1)] by blast
  show ?case using v1(2) v2 by auto
qed

text \<open>
  C10, as amended. Registering a name that the catalog does not know puts the new id with
  an empty address list into \<open>rescue_points\<close>. From then on, through any sequence of
  operations without a sync, the buffer keeps an entry for that id, so it is not empty and a
  woken \<open>wait_for_sync_request\<close> returns \<open>AKU_SUCCESS\<close>; the next sync hands the id to the
  metadata store with the address list that is buffered for it at that moment, which is
  the empty list when no \<open>write\<close> for that id came in between.
\<close>

theorem new_series_rescue_entry_until_sync:
  assumes "SeriesMatcher_match (global_matcher r) name = 0"
    and "TreeRegistry_init_series_id X name lm r w = (st, i, lm1, r1, w1)"
    and "w2 = fold (exec X) ops2 (w1\<lparr>registry := Some r1\<rparr>)"
    and "registry w2 = Some r2"
  shows "map_of (rescue_points r1) i = Some [] \<and>
         map_of (rescue_points r2) i \<noteq> None \<and> rescue_points r2 \<noteq> [] \<and>
         TreeRegistry_wait_for_sync_request cv_no_timeout r2 = AKU_SUCCESS \<and>
         (\<forall>meta. stored_rescue_points (snd (snd (TreeRegistry_sync_with_metadata_storage
              MetadataStorage_insert_new_names MetadataStorage_upsert_rescue_points
              r2 meta))) i = map_of (rescue_points r2) i) \<and>
         ((\<forall>x\<in>set ops2. \<not> writes_to i x) \<longrightarrow> map_of (rescue_points r2) i = Some [])"
proof -
  have r1: "r1 = r\<lparr>global_matcher := snd (SeriesMatcher_add (global_matcher r) name),
                table := (table r)(sm_series_id (global_matcher r) \<mapsto>
                           \<lparr>roots = sm_series_id (global_matcher r)\<rparr>),
                rescue_points := AList.update (sm_series_id (global_matcher r)) []
                                   (rescue_points r)\<rparr>"
    and i: "i = sm_series_id (global_matcher r)"
    using assms(1,2)
    by (auto simp: TreeRegistry_init_series_id_def SeriesMatcher_add_def Let_def)
  have m1: "map_of (rescue_points r1) i = Some []"
    unfolding r1 i by (simp add: update_conv')
  have lt: "i < sm_series_id (global_matcher r1)"
    unfolding r1 i by (simp add: SeriesMatcher_add_def Let_def)
  have "buffered_as (w1\<lparr>registry := Some r1\<rparr>) i []"
    using m1 lt by (simp add: buffered_as_def)
  then obtain v where v: "buffered_as w2 i v"
    "(\<forall>x\<in>set ops2. \<not> writes_to i x) \<longrightarrow> v = []"
    unfolding assms(3) using fold_buffered_as by blast
  have m2: "map_of (rescue_points r2) i = Some v"
    using v(1) assms(4) by (simp add: buffered_as_def)
  then have ne: "rescue_points r2 \<noteq> []" by auto
  have sy: "stored_rescue_points (snd (snd (TreeRegistry_sync_with_metadata_storage
              MetadataStorage_insert_new_names MetadataStorage_upsert_rescue_points
              r2 meta))) i = map_of (rescue_points r2) i" for meta
    using m2
    by (simp add: TreeRegistry_sync_with_metadata_storage_def SeriesMatcher_pull_new_names_def
          MetadataStorage_insert_new_names_def MetadataStorage_upsert_rescue_points_def)
  have nn: "map_of (rescue_points r2) i \<noteq> None" using m2 by simp
  have wt: "TreeRegistry_wait_for_sync_request cv_no_timeout r2 = AKU_SUCCESS"
    using ne by (simp add: TreeRegistry_wait_for_sync_request_def)
  have un: "(\<forall>x\<in>set ops2. \<not> writes_to i x) \<longrightarrow> map_of (rescue_points r2) i = Some []"
    using v(2) m2 by simp
  show ?thesis
    using m1 nn ne wt sy un by blast
qed

theorem new_series_rescue_entry_until_sync_witness:
  "map_of (rescue_points (the (registry flushed_other_world))) 1 = Some [] \<and>
   map_of (rescue_points (the (registry flushed_other_world))) 2 = Some [0xAA, 0xBB] \<and>
   TreeRegistry_wait_for_sync_request cv_no_timeout (the (registry flushed_other_world)) =
     AKU_SUCCESS \<and>
   stored_rescue_points (snd (snd (TreeRegistry_sync_with_metadata_storage
     (MetadataStorage_insert_new_names ::
        (string \<times> aku_ParamId) list \<Rightarrow> MetadataStorage \<Rightarrow> unit + MetadataStorage)
     MetadataStorage_upsert_rescue_points
     (the (registry flushed_other_world)) MetadataStorage_new))) 1 = Some []"
proof -
  let ?res = "TreeRegistry_init_series_id double ''cpu'' SeriesMatcher_new TreeRegistry_new
                (run double [])"
  let ?ops2 = "[CreateSession 2, InitSeriesId 2 ''mem'', Write 2 (float_sample 2 50 7),
                Write 2 (float_sample 2 100 7)]"
  have h1: "SeriesMatcher_match (global_matcher TreeRegistry_new) ''cpu'' = 0"
    by (simp add: model_defs)
  have i1: "fst (snd ?res) = 1"
    by (simp add: model_defs)
  have h2: "?res = (fst ?res, 1, fst (snd (snd ?res)), fst (snd (snd (snd ?res))),
                    snd (snd (snd (snd ?res))))"
    unfolding i1[symmetric] by simp
  have h3: "flushed_other_world =
              fold (exec double) ?ops2
                ((snd (snd (snd (snd ?res))))\<lparr>registry := Some (fst (snd (snd (snd ?res))))\<rparr>)"
    by (simp add: flushed_other_world_def cpu_registered_def split_def)
  obtain r2 where r2: "registry flushed_other_world = Some r2"
    by (simp add: flushed_other_world_def cpu_registered_def model_defs Let_def)
  have nw: "\<forall>x\<in>set ?ops2. \<not> writes_to 1 x"
    by (simp add: writes_to_def float_sample_def)
  note T = new_series_rescue_entry_until_sync [OF h1 h2 h3 r2]
  have a: "map_of (rescue_points r2) 1 = Some []"
    using T nw by blast
  have b: "TreeRegistry_wait_for_sync_request cv_no_timeout r2 = AKU_SUCCESS"
    using T by blast
  have c: "stored_rescue_points (snd (snd (TreeRegistry_sync_with_metadata_storage
     (MetadataStorage_insert_new_names ::
        (string \<times> aku_ParamId) list \<Rightarrow> MetadataStorage \<Rightarrow> unit + MetadataStorage)
     MetadataStorage_upsert_rescue_points r2 MetadataStorage_new))) 1 = Some []"
    by (rule trans [OF T [THEN conjunct2, THEN conjunct2, THEN conjunct2, THEN conjunct2,
                          THEN conjunct1, rule_format] a])
  have d: "map_of (rescue_points r2) 2 = Some [0xAA, 0xBB]"
    using r2 by (auto simp: flushed_other_world_def cpu_registered_def model_defs Let_def)
  show ?thesis using a b c d r2 by simp
qed

text \<open>
  The claim as stated promises the empty list at the next sync. A write that asks for a flush
  before the sync replaces it: session 1 registers series 1 (the buffer holds the empty
  list), writes timestamps 50 and 100, and the sync then stores \<open>[0xAA, 0xBB]\<close> for the id.
\<close>

theorem flush_replaces_empty_rescue_entry:
  "map_of (rescue_points (the (registry fresh_series_world))) 1 = Some [] \<and>
   map_of (rescue_points (the (registry flushed_world))) 1 = Some [0xAA, 0xBB] \<and>
   stored_rescue_points (snd (snd (TreeRegistry_sync_with_metadata_storage
     (MetadataStorage_insert_new_names ::
        (string \<times> aku_ParamId) list \<Rightarrow> MetadataStorage \<Rightarrow> unit + MetadataStorage)
     MetadataStorage_upsert_rescue_points
     (the (registry flushed_world)) MetadataStorage_new))) 1 \<noteq> Some []"
  by (simp add: flushed_world_def model_defs Let_def)

end
